theory Spec2Isabelle
  imports Main "HOL-Library.Multiset" "HOL-Library.Sublist"
begin

section \<open>The bounded ranking of \<^verbatim>\<open>include/ranker.h\<close>\<close>

text \<open>
  \<^verbatim>\<open>Ranker<T, Behavior, Comp, DisposalPolicy>\<close> keeps a \<^verbatim>\<open>std::list<T>\<close> ordered by
  \<^verbatim>\<open>Comp\<close> and bounded by \<^verbatim>\<open>TOP\<close>. The template parameters \<^verbatim>\<open>Behavior\<close> and
  \<^verbatim>\<open>Comp\<close> are arguments of the operations below. A call \<^verbatim>\<open>DisposalPolicy()(x)\<close> is an
  effect outside the object; the model records it by appending \<open>x\<close> to the trace
  \<open>disposed\<close>, in call order. List iterators are indices, \<^verbatim>\<open>end()\<close> is the length.
\<close>

subsection \<open>Data\<close>

datatype SameValueBehavior = AddBeforeEqual | AddAfterEqual

record 'a ranker =
  ranking :: "'a list"
  TOP :: nat
  disposed :: "'a list"

text \<open>Undefined behaviour of the C++ source, made a value.\<close>

datatype error = DerefEnd | EraseEnd

definition Ranker :: "nat \<Rightarrow> 'a ranker" where
  "Ranker t = \<lparr>ranking = [], TOP = t, disposed = []\<rparr>"

subsection \<open>The standard algorithms the source calls\<close>

text \<open>
  \<^verbatim>\<open>std::lower_bound\<close> and \<^verbatim>\<open>std::upper_bound\<close> are one bisection loop over
  \<^verbatim>\<open>[first, first + len)\<close>, differing in the test made at \<^verbatim>\<open>middle\<close>:
  \<^verbatim>\<open>comp(*middle, val)\<close> for the lower bound, \<^verbatim>\<open>!comp(val, *middle)\<close> for the upper one.
  \<^verbatim>\<open>std::equal_range\<close> returns the pair of both.
\<close>

function bound_search :: "('a \<Rightarrow> bool) \<Rightarrow> 'a list \<Rightarrow> nat \<Rightarrow> nat \<Rightarrow> nat" where
  "bound_search P xs first len =
     (if 0 < len then
        (if P (xs ! (first + len div 2))
         then bound_search P xs (first + len div 2 + 1) (len - len div 2 - 1)
         else bound_search P xs first (len div 2))
      else first)"
  by pat_completeness auto
termination
  by (relation "measure (\<lambda>(P, xs, first, len). len)") auto

declare bound_search.simps [simp del]

definition lower_bound :: "('a \<Rightarrow> 'a \<Rightarrow> bool) \<Rightarrow> 'a list \<Rightarrow> 'a \<Rightarrow> nat" where
  "lower_bound cmp xs val = bound_search (\<lambda>x. cmp x val) xs 0 (length xs)"

definition upper_bound :: "('a \<Rightarrow> 'a \<Rightarrow> bool) \<Rightarrow> 'a list \<Rightarrow> 'a \<Rightarrow> nat" where
  "upper_bound cmp xs val = bound_search (\<lambda>x. \<not> cmp val x) xs 0 (length xs)"

definition equal_range :: "('a \<Rightarrow> 'a \<Rightarrow> bool) \<Rightarrow> 'a list \<Rightarrow> 'a \<Rightarrow> nat \<times> nat" where
  "equal_range cmp xs val = (lower_bound cmp xs val, upper_bound cmp xs val)"

text \<open>\<^verbatim>\<open>std::find\<close>: the first position holding \<open>val\<close>, the length when there is none.\<close>

fun find_pos :: "'a list \<Rightarrow> 'a \<Rightarrow> nat" where
  "find_pos [] val = 0"
| "find_pos (x # xs) val = (if x = val then 0 else Suc (find_pos xs val))"

text \<open>\<^verbatim>\<open>list::insert(pos, x)\<close> puts \<open>x\<close> before position \<open>pos\<close>; \<^verbatim>\<open>list::erase(pos)\<close>
  drops the element at \<open>pos\<close>; \<^verbatim>\<open>list::remove(val)\<close> drops every element equal to \<open>val\<close>.\<close>

definition list_insert :: "nat \<Rightarrow> 'a \<Rightarrow> 'a list \<Rightarrow> 'a list" where
  "list_insert pos x xs = take pos xs @ x # drop pos xs"

definition list_erase :: "nat \<Rightarrow> 'a list \<Rightarrow> 'a list" where
  "list_erase pos xs = take pos xs @ drop (Suc pos) xs"

fun list_remove :: "'a \<Rightarrow> 'a list \<Rightarrow> 'a list" where
  "list_remove val [] = []"
| "list_remove val (x # xs) = (if x = val then list_remove val xs else x # list_remove val xs)"

subsection \<open>The operations of \<^verbatim>\<open>Ranker\<close>\<close>

text \<open>
  \<^verbatim>\<open>Ranker::insert\<close>. After \<^verbatim>\<open>ranking.insert(pos, element)\<close> the iterator \<^verbatim>\<open>pos\<close> still
  designates the element it designated before, now at index \<open>pos + 1\<close>, so
  \<^verbatim>\<open>distance(pos, ranking.end())\<close> is the new length minus \<open>pos + 1\<close>.
\<close>

definition insert_ranker ::
  "SameValueBehavior \<Rightarrow> ('a \<Rightarrow> 'a \<Rightarrow> bool) \<Rightarrow> 'a \<Rightarrow> 'a ranker \<Rightarrow> bool \<times> 'a ranker" where
  "insert_ranker behavior cmp element s =
     (let position = equal_range cmp (ranking s) element;
          top_not_reached = (length (ranking s) < TOP s);
          pos = (if behavior = AddBeforeEqual then fst position else snd position);
          inserted = list_insert pos element (ranking s)
      in if \<not> top_not_reached
         then (if length inserted - (pos + 1) = 0 then False else True,
               s\<lparr>ranking := list_erase (length inserted - 1) inserted,
                 disposed := disposed s @ [inserted ! (length inserted - 1)]\<rparr>)
         else (True, s\<lparr>ranking := inserted\<rparr>))"

text \<open>
  \<^verbatim>\<open>remove_first(const T&)\<close> dereferences the result of \<^verbatim>\<open>find\<close> unchecked: with no
  equal element it reads \<^verbatim>\<open>*end()\<close>.
\<close>

definition remove_first :: "'a \<Rightarrow> 'a ranker \<Rightarrow> error + 'a ranker" where
  "remove_first element s =
     (let pos = find_pos (ranking s) element
      in if pos = length (ranking s) then Inl DerefEnd
         else Inr (s\<lparr>ranking := list_erase pos (ranking s),
                     disposed := disposed s @ [ranking s ! pos]\<rparr>))"

text \<open>The loop of \<^verbatim>\<open>remove_all(const T&)\<close>: disposal of every element equal to
  \<open>element\<close>, front to back.\<close>

fun dispose_equal :: "'a \<Rightarrow> 'a list \<Rightarrow> 'a list \<Rightarrow> 'a list" where
  "dispose_equal element [] trace = trace"
| "dispose_equal element (x # xs) trace =
     dispose_equal element xs (if element = x then trace @ [x] else trace)"

definition remove_all :: "'a \<Rightarrow> 'a ranker \<Rightarrow> 'a ranker" where
  "remove_all element s =
     s\<lparr>ranking := list_remove element (ranking s),
       disposed := dispose_equal element (ranking s) (disposed s)\<rparr>"

text \<open>
  The overloads taking \<^verbatim>\<open>T*\<close> dispose their argument, not the element found.
  \<^verbatim>\<open>remove_first(T*)\<close> erases the result of \<^verbatim>\<open>find\<close> unchecked: with no match it
  erases \<^verbatim>\<open>end()\<close>, after the disposal.
\<close>

definition remove_first_ptr :: "'a \<Rightarrow> 'a ranker \<Rightarrow> error + 'a ranker" where
  "remove_first_ptr element s =
     (let pos = find_pos (ranking s) element
      in if pos = length (ranking s) then Inl EraseEnd
         else Inr (s\<lparr>ranking := list_erase pos (ranking s),
                     disposed := disposed s @ [element]\<rparr>))"

definition remove_all_ptr :: "'a \<Rightarrow> 'a ranker \<Rightarrow> 'a ranker" where
  "remove_all_ptr element s =
     s\<lparr>ranking := list_remove element (ranking s),
       disposed := disposed s @ [element]\<rparr>"

text \<open>The loop of \<^verbatim>\<open>clear\<close>: disposal of every element, front to back.\<close>

fun dispose_each :: "'a list \<Rightarrow> 'a list \<Rightarrow> 'a list" where
  "dispose_each [] trace = trace"
| "dispose_each (x # xs) trace = dispose_each xs (trace @ [x])"

definition clear :: "'a ranker \<Rightarrow> 'a ranker" where
  "clear s = s\<lparr>ranking := [], disposed := dispose_each (ranking s) (disposed s)\<rparr>"

text \<open>The destructor \<^verbatim>\<open>~Ranker\<close> calls \<^verbatim>\<open>clear\<close>.\<close>

definition destroy :: "'a ranker \<Rightarrow> 'a ranker" where
  "destroy s = clear s"

definition size_ranker :: "'a ranker \<Rightarrow> nat" where
  "size_ranker s = length (ranking s)"

definition empty_ranker :: "'a ranker \<Rightarrow> bool" where
  "empty_ranker s = (ranking s = [])"

text \<open>\<^verbatim>\<open>top\<close> and \<^verbatim>\<open>bottom\<close> dereference \<^verbatim>\<open>begin()\<close> and \<^verbatim>\<open>--end()\<close> unchecked.\<close>

definition top_ranker :: "'a ranker \<Rightarrow> error + 'a" where
  "top_ranker s = (case ranking s of [] \<Rightarrow> Inl DerefEnd | x # xs \<Rightarrow> Inr x)"

definition bottom_ranker :: "'a ranker \<Rightarrow> error + 'a" where
  "bottom_ranker s =
     (if ranking s = [] then Inl DerefEnd else Inr (ranking s ! (length (ranking s) - 1)))"

subsection \<open>Sequences of operations\<close>

datatype 'a operation =
  Insert 'a | RemoveFirst 'a | RemoveAll 'a | RemoveFirstPtr 'a | RemoveAllPtr 'a | Clear

fun step ::
  "SameValueBehavior \<Rightarrow> ('a \<Rightarrow> 'a \<Rightarrow> bool) \<Rightarrow> 'a operation \<Rightarrow> 'a ranker \<Rightarrow> error + 'a ranker" where
  "step behavior cmp (Insert e) s = Inr (snd (insert_ranker behavior cmp e s))"
| "step behavior cmp (RemoveFirst e) s = remove_first e s"
| "step behavior cmp (RemoveAll e) s = Inr (remove_all e s)"
| "step behavior cmp (RemoveFirstPtr e) s = remove_first_ptr e s"
| "step behavior cmp (RemoveAllPtr e) s = Inr (remove_all_ptr e s)"
| "step behavior cmp Clear s = Inr (clear s)"

text \<open>A run stops at the first operation with undefined behaviour.\<close>

fun run ::
  "SameValueBehavior \<Rightarrow> ('a \<Rightarrow> 'a \<Rightarrow> bool) \<Rightarrow> 'a operation list \<Rightarrow> 'a ranker \<Rightarrow> error + 'a ranker" where
  "run behavior cmp [] s = Inr s"
| "run behavior cmp (x # xs) s =
     (case step behavior cmp x s of Inl err \<Rightarrow> Inl err | Inr s' \<Rightarrow> run behavior cmp xs s')"

text \<open>Inserting a list of elements one after the other.\<close>

fun insert_all ::
  "SameValueBehavior \<Rightarrow> ('a \<Rightarrow> 'a \<Rightarrow> bool) \<Rightarrow> 'a list \<Rightarrow> 'a ranker \<Rightarrow> 'a ranker" where
  "insert_all behavior cmp [] s = s"
| "insert_all behavior cmp (e # es) s =
     insert_all behavior cmp es (snd (insert_ranker behavior cmp e s))"

subsection \<open>The vocabulary of the specification\<close>

text \<open>A strict weak order, as the standard requires of \<^verbatim>\<open>Comp\<close>: irreflexive, transitive,
  and with a transitive incomparability relation.\<close>

definition equiv_under :: "('a \<Rightarrow> 'a \<Rightarrow> bool) \<Rightarrow> 'a \<Rightarrow> 'a \<Rightarrow> bool" where
  "equiv_under cmp x y = (\<not> cmp x y \<and> \<not> cmp y x)"

definition strict_weak_order :: "('a \<Rightarrow> 'a \<Rightarrow> bool) \<Rightarrow> bool" where
  "strict_weak_order cmp =
     ((\<forall>x. \<not> cmp x x) \<and>
      (\<forall>x y z. cmp x y \<longrightarrow> cmp y z \<longrightarrow> cmp x z) \<and>
      (\<forall>x y z. equiv_under cmp x y \<longrightarrow> equiv_under cmp y z \<longrightarrow> equiv_under cmp x z))"

text \<open>Invariant I2: from top to bottom no element is ranked before an earlier one.\<close>

definition ranked :: "('a \<Rightarrow> 'a \<Rightarrow> bool) \<Rightarrow> 'a list \<Rightarrow> bool" where
  "ranked cmp xs = sorted_wrt (\<lambda>x y. \<not> cmp y x) xs"

text \<open>The position \<^verbatim>\<open>pos\<close> that \<^verbatim>\<open>Ranker::insert\<close> chooses from the equal range.\<close>

definition insert_position :: "SameValueBehavior \<Rightarrow> ('a \<Rightarrow> 'a \<Rightarrow> bool) \<Rightarrow> 'a list \<Rightarrow> 'a \<Rightarrow> nat" where
  "insert_position behavior cmp xs element =
     (if behavior = AddBeforeEqual then fst (equal_range cmp xs element)
      else snd (equal_range cmp xs element))"

text \<open>The elements an operation hands to the ranking, and the operations that take their
  argument by value (\<^verbatim>\<open>const T&\<close>) or none.\<close>

fun entering :: "'a operation \<Rightarrow> 'a list" where
  "entering (Insert e) = [e]"
| "entering (RemoveFirst e) = []"
| "entering (RemoveAll e) = []"
| "entering (RemoveFirstPtr e) = []"
| "entering (RemoveAllPtr e) = []"
| "entering Clear = []"

fun by_value :: "'a operation \<Rightarrow> bool" where
  "by_value (RemoveFirstPtr e) = False"
| "by_value (RemoveAllPtr e) = False"
| "by_value (Insert e) = True"
| "by_value (RemoveFirst e) = True"
| "by_value (RemoveAll e) = True"
| "by_value Clear = True"

section \<open>Facts about the standard algorithms\<close>

lemma bound_search_partition:
  "first \<le> k \<Longrightarrow> k \<le> first + len \<Longrightarrow>
   (\<forall>i. first \<le> i \<and> i < first + len \<longrightarrow> (P (xs ! i) \<longleftrightarrow> i < k)) \<Longrightarrow>
   bound_search P xs first len = k"
proof (induction P xs first len rule: bound_search.induct)
  case (1 P xs first len)
  show ?case
  proof (cases "0 < len")
    case False
    with "1.prems" show ?thesis by (simp add: bound_search.simps)
  next
    case True
    let ?m = "first + len div 2"
    have m: "first \<le> ?m" "?m < first + len" using True by auto
    show ?thesis
    proof (cases "P (xs ! ?m)")
      case T: True
      then have "?m < k" using "1.prems"(3) m by blast
      then have "bound_search P xs (?m + 1) (len - len div 2 - 1) = k"
        using "1.IH"(1)[OF True T] "1.prems" by auto
      then show ?thesis using True T by (subst bound_search.simps) simp
    next
      case F: False
      then have "\<not> ?m < k" using "1.prems"(3) m by blast
      moreover have "\<forall>i. first \<le> i \<and> i < first + len div 2 \<longrightarrow> P (xs ! i) = (i < k)"
        using "1.prems"(3) m by auto
      ultimately have "bound_search P xs first (len div 2) = k"
        using "1.IH"(2)[OF True F] "1.prems"(1) by simp
      then show ?thesis using True F by (subst bound_search.simps) simp
    qed
  qed
qed

lemma bound_search_range:
  "first \<le> bound_search P xs first len \<and> bound_search P xs first len \<le> first + len"
proof (induction P xs first len rule: bound_search.induct)
  case (1 P xs first len)
  show ?case
  proof (cases "0 < len")
    case False
    then show ?thesis by (simp add: bound_search.simps)
  next
    case True
    show ?thesis
    proof (cases "P (xs ! (first + len div 2))")
      case T: True
      show ?thesis using "1.IH"(1)[OF True T] True T by (subst (1 2) bound_search.simps) auto
    next
      case F: False
      show ?thesis using "1.IH"(2)[OF True F] True F by (subst (1 2) bound_search.simps) auto
    qed
  qed
qed

lemma swo_negtrans:
  "strict_weak_order cmp \<Longrightarrow> \<not> cmp x y \<Longrightarrow> \<not> cmp y z \<Longrightarrow> \<not> cmp x z"
  unfolding strict_weak_order_def equiv_under_def by metis

lemma swo_asym: "strict_weak_order cmp \<Longrightarrow> cmp x y \<Longrightarrow> \<not> cmp y x"
  unfolding strict_weak_order_def by metis

lemma prefix_closed_partition:
  assumes "\<forall>i j. i < j \<and> j < length xs \<and> P (xs ! j) \<longrightarrow> P (xs ! i)"
  shows "\<forall>i. i < length xs \<longrightarrow> (P (xs ! i) \<longleftrightarrow> i < length (takeWhile P xs))"
proof (intro allI impI)
  fix i assume i: "i < length xs"
  let ?k = "length (takeWhile P xs)"
  show "P (xs ! i) \<longleftrightarrow> i < ?k"
  proof
    assume p: "P (xs ! i)"
    show "i < ?k"
    proof (rule ccontr)
      assume "\<not> i < ?k"
      then have ki: "?k \<le> i" by simp
      then have klt: "?k < length xs" using i by simp
      have nk: "\<not> P (xs ! ?k)" using nth_length_takeWhile[OF klt] .
      show False
      proof (cases "?k = i")
        case True then show False using nk p by simp
      next
        case False
        then have "?k < i" using ki by simp
        then show False using assms i p nk by blast
      qed
    qed
  next
    assume "i < ?k"
    then have "xs ! i \<in> set (takeWhile P xs)"
      by (metis nth_mem takeWhile_nth)
    then show "P (xs ! i)" by (rule set_takeWhileD[THEN conjunct2])
  qed
qed

lemma ranked_nth: "ranked cmp xs \<Longrightarrow> i < j \<Longrightarrow> j < length xs \<Longrightarrow> \<not> cmp (xs ! j) (xs ! i)"
  unfolding ranked_def by (simp add: sorted_wrt_iff_nth_less)

lemma lower_pred_closed:
  assumes "strict_weak_order cmp" "ranked cmp xs"
  shows "\<forall>i j. i < j \<and> j < length xs \<and> cmp (xs ! j) v \<longrightarrow> cmp (xs ! i) v"
proof (intro allI impI)
  fix i j assume h: "i < j \<and> j < length xs \<and> cmp (xs ! j) v"
  then have "\<not> cmp (xs ! j) (xs ! i)" using ranked_nth[OF assms(2)] by blast
  then show "cmp (xs ! i) v" using swo_negtrans[OF assms(1)] h by blast
qed

lemma upper_pred_closed:
  assumes "strict_weak_order cmp" "ranked cmp xs"
  shows "\<forall>i j. i < j \<and> j < length xs \<and> \<not> cmp v (xs ! j) \<longrightarrow> \<not> cmp v (xs ! i)"
proof (intro allI impI)
  fix i j assume h: "i < j \<and> j < length xs \<and> \<not> cmp v (xs ! j)"
  then have "\<not> cmp (xs ! j) (xs ! i)" using ranked_nth[OF assms(2)] by blast
  then show "\<not> cmp v (xs ! i)" using swo_negtrans[OF assms(1)] h by blast
qed

lemma bound_search_takeWhile:
  assumes "\<forall>i j. i < j \<and> j < length xs \<and> P (xs ! j) \<longrightarrow> P (xs ! i)"
  shows "bound_search P xs 0 (length xs) = length (takeWhile P xs)"
proof (rule bound_search_partition)
  show "0 \<le> length (takeWhile P xs)" by simp
  show "length (takeWhile P xs) \<le> 0 + length xs" by (simp add: length_takeWhile_le)
  show "\<forall>i. 0 \<le> i \<and> i < 0 + length xs \<longrightarrow> P (xs ! i) = (i < length (takeWhile P xs))"
    using prefix_closed_partition[OF assms] by simp
qed

lemma dropWhile_all_fail:
  assumes "\<forall>i j. i < j \<and> j < length xs \<and> P (xs ! j) \<longrightarrow> P (xs ! i)"
  shows "\<forall>x \<in> set (dropWhile P xs). \<not> P x"
proof
  fix x assume "x \<in> set (dropWhile P xs)"
  then obtain n where n: "n < length (dropWhile P xs)" "x = dropWhile P xs ! n"
    by (metis in_set_conv_nth)
  let ?k = "length (takeWhile P xs)"
  have len: "?k + n < length xs"
  proof -
    have "length (takeWhile P xs @ dropWhile P xs) = length xs" by simp
    then have "?k + length (dropWhile P xs) = length xs" by (simp only: length_append)
    then show ?thesis using n(1) by linarith
  qed
  have "x = xs ! (?k + n)" using n dropWhile_nth[of n P xs] by (simp add: add.commute)
  then show "\<not> P x" using prefix_closed_partition[OF assms] len by simp
qed

lemma lower_bound_ranked:
  "strict_weak_order cmp \<Longrightarrow> ranked cmp xs \<Longrightarrow>
   lower_bound cmp xs v = length (takeWhile (\<lambda>x. cmp x v) xs)"
  unfolding lower_bound_def
  by (rule bound_search_takeWhile) (rule lower_pred_closed)

lemma upper_bound_ranked:
  "strict_weak_order cmp \<Longrightarrow> ranked cmp xs \<Longrightarrow>
   upper_bound cmp xs v = length (takeWhile (\<lambda>x. \<not> cmp v x) xs)"
  unfolding upper_bound_def
  by (rule bound_search_takeWhile) (rule upper_pred_closed)

lemma list_insert_takeWhile:
  "list_insert (length (takeWhile P xs)) v xs = takeWhile P xs @ v # dropWhile P xs"
  unfolding list_insert_def by (simp add: takeWhile_eq_take[symmetric] dropWhile_eq_drop[symmetric])

lemma sorted_wrt_insert_mid:
  "sorted_wrt R (as @ bs) \<Longrightarrow> \<forall>a\<in>set as. R a v \<Longrightarrow> \<forall>b\<in>set bs. R v b \<Longrightarrow>
   sorted_wrt R (as @ v # bs)"
  by (auto simp: sorted_wrt_append)

lemma ranked_list_insert_lower:
  assumes swo: "strict_weak_order cmp" and r: "ranked cmp xs"
  shows "ranked cmp (list_insert (lower_bound cmp xs v) v xs)"
proof -
  let ?P = "\<lambda>x. cmp x v"
  have s: "sorted_wrt (\<lambda>x y. \<not> cmp y x) (takeWhile ?P xs @ dropWhile ?P xs)"
    using r by (simp add: ranked_def)
  have a: "\<forall>x \<in> set (takeWhile ?P xs). \<not> cmp v x"
  proof
    fix x assume "x \<in> set (takeWhile ?P xs)"
    then have "cmp x v" by (rule set_takeWhileD[THEN conjunct2])
    then show "\<not> cmp v x" by (rule swo_asym[OF swo])
  qed
  have b: "\<forall>x \<in> set (dropWhile ?P xs). \<not> cmp x v"
    using dropWhile_all_fail[OF lower_pred_closed[OF swo r]] .
  show ?thesis
    unfolding lower_bound_ranked[OF swo r] list_insert_takeWhile ranked_def
    by (rule sorted_wrt_insert_mid[OF s a b])
qed

lemma ranked_list_insert_upper:
  assumes swo: "strict_weak_order cmp" and r: "ranked cmp xs"
  shows "ranked cmp (list_insert (upper_bound cmp xs v) v xs)"
proof -
  let ?P = "\<lambda>x. \<not> cmp v x"
  have s: "sorted_wrt (\<lambda>x y. \<not> cmp y x) (takeWhile ?P xs @ dropWhile ?P xs)"
    using r by (simp add: ranked_def)
  have a: "\<forall>x \<in> set (takeWhile ?P xs). \<not> cmp v x"
  proof
    fix x assume "x \<in> set (takeWhile ?P xs)"
    then show "\<not> cmp v x" by (rule set_takeWhileD[THEN conjunct2])
  qed
  have b: "\<forall>x \<in> set (dropWhile ?P xs). \<not> cmp x v"
  proof
    fix x assume "x \<in> set (dropWhile ?P xs)"
    then have "\<not> \<not> cmp v x"
      using dropWhile_all_fail[OF upper_pred_closed[OF swo r]] by blast
    then show "\<not> cmp x v" using swo_asym[OF swo] by blast
  qed
  show ?thesis
    unfolding upper_bound_ranked[OF swo r] list_insert_takeWhile ranked_def
    by (rule sorted_wrt_insert_mid[OF s a b])
qed

lemma list_erase_last: "xs \<noteq> [] \<Longrightarrow> list_erase (length xs - 1) xs = butlast xs"
  unfolding list_erase_def by (simp add: butlast_conv_take)

lemma nth_last: "xs \<noteq> [] \<Longrightarrow> xs ! (length xs - 1) = last xs"
  by (simp add: last_conv_nth)

lemma list_insert_nonempty: "list_insert pos x xs \<noteq> []"
  unfolding list_insert_def by simp

lemma length_list_insert: "length (list_insert pos x xs) = Suc (length xs)"
  unfolding list_insert_def by (cases "pos \<le> length xs") auto

lemma ranked_butlast: "ranked cmp xs \<Longrightarrow> ranked cmp (butlast xs)"
  unfolding ranked_def butlast_conv_take by (rule sorted_wrt_take)

lemma ranked_list_erase:
  assumes r: "ranked cmp xs"
  shows "ranked cmp (list_erase pos xs)"
proof -
  let ?R = "\<lambda>x y. \<not> cmp y x"
  have r': "sorted_wrt ?R xs" using r by (simp add: ranked_def)
  have "sorted_wrt ?R (take pos xs @ drop pos xs)"
    using r' by simp
  then have s: "sorted_wrt ?R (take pos xs)"
    and c: "\<forall>x\<in>set (take pos xs). \<forall>y\<in>set (drop pos xs). ?R x y"
    unfolding sorted_wrt_append by simp_all
  have sub: "set (drop (Suc pos) xs) \<subseteq> set (drop pos xs)"
    using set_drop_subset_set_drop[of pos "Suc pos" xs] by simp
  have d: "sorted_wrt ?R (drop (Suc pos) xs)"
    using r' by (simp add: sorted_wrt_drop)
  have e: "\<forall>x\<in>set (take pos xs). \<forall>y\<in>set (drop (Suc pos) xs). ?R x y"
    using c sub by blast
  show ?thesis
    unfolding ranked_def list_erase_def sorted_wrt_append using s d e by blast
qed

section \<open>The insertion step\<close>

lemma insert_position_le: "insert_position behavior cmp xs element \<le> length xs"
  unfolding insert_position_def equal_range_def lower_bound_def upper_bound_def
  using bound_search_range[of 0 "\<lambda>x. cmp x element" xs "length xs"]
        bound_search_range[of 0 "\<lambda>x. \<not> cmp element x" xs "length xs"]
  by simp

lemma insert_ranker_eq:
  "insert_ranker behavior cmp element s =
     (if TOP s \<le> length (ranking s)
      then (insert_position behavior cmp (ranking s) element \<noteq> length (ranking s),
            s\<lparr>ranking := butlast (list_insert (insert_position behavior cmp (ranking s) element) element (ranking s)),
              disposed := disposed s @ [last (list_insert (insert_position behavior cmp (ranking s) element) element (ranking s))]\<rparr>)
      else (True, s\<lparr>ranking := list_insert (insert_position behavior cmp (ranking s) element) element (ranking s)\<rparr>))"
proof -
  let ?pos = "insert_position behavior cmp (ranking s) element"
  let ?ins = "list_insert ?pos element (ranking s)"
  have le: "?pos \<le> length (ranking s)" by (rule insert_position_le)
  have d: "(length ?ins - (?pos + 1) = 0) = (?pos = length (ranking s))"
    using le by (auto simp: length_list_insert)
  have ne: "?ins \<noteq> []" by (rule list_insert_nonempty)
  show ?thesis
    unfolding insert_ranker_def Let_def insert_position_def[symmetric]
      d list_erase_last[OF ne] nth_last[OF ne]
    by (simp add: not_less)
qed

lemma list_insert_end: "list_insert (length xs) x xs = xs @ [x]"
  unfolding list_insert_def by simp

lemma nth_list_insert: "pos \<le> length xs \<Longrightarrow> list_insert pos x xs ! pos = x"
  unfolding list_insert_def by (simp add: nth_append)

lemma mset_list_insert: "mset (list_insert pos x xs) = add_mset x (mset xs)"
proof -
  have "mset (take pos xs @ drop pos xs) = mset xs" by simp
  then show ?thesis unfolding list_insert_def by (simp only: mset_append mset.simps) simp
qed

section \<open>A rejected insert (C10) and the scenario of three equal keys (C4)\<close>

lemma insert_ranker_false_iff:
  "(\<not> fst (insert_ranker behavior cmp element s)) =
     (TOP s \<le> length (ranking s) \<and>
      insert_position behavior cmp (ranking s) element = length (ranking s))"
  unfolding insert_ranker_eq by simp

text \<open>
  C10. Whenever \<^verbatim>\<open>insert(element)\<close> returns false, the new element was placed at the
  tail and is the one evicted: the sequence after the call is the sequence before it, and
  the disposal action is invoked exactly once, on the rejected element.
\<close>

theorem insert_false_frame:
  assumes "\<not> fst (insert_ranker behavior cmp element s)"
  shows "list_insert (insert_position behavior cmp (ranking s) element) element (ranking s)
           = ranking s @ [element] \<and>
         ranking (snd (insert_ranker behavior cmp element s)) = ranking s \<and>
         disposed (snd (insert_ranker behavior cmp element s)) = disposed s @ [element] \<and>
         TOP (snd (insert_ranker behavior cmp element s)) = TOP s"
proof -
  from assms have full: "TOP s \<le> length (ranking s)"
    and tail: "insert_position behavior cmp (ranking s) element = length (ranking s)"
    unfolding insert_ranker_false_iff by simp_all
  show ?thesis
    unfolding insert_ranker_eq tail list_insert_end using full by simp
qed

theorem insert_false_frame_witness:
  "\<not> fst (insert_ranker AddAfterEqual (<) (20::int) \<lparr>ranking = [5], TOP = 1, disposed = []\<rparr>) \<and>
   ranking (snd (insert_ranker AddAfterEqual (<) (20::int) \<lparr>ranking = [5], TOP = 1, disposed = []\<rparr>)) = [5] \<and>
   disposed (snd (insert_ranker AddAfterEqual (<) (20::int) \<lparr>ranking = [5], TOP = 1, disposed = []\<rparr>)) = [20]"
proof -
  have h: "\<not> fst (insert_ranker AddAfterEqual (<) (20::int) \<lparr>ranking = [5], TOP = 1, disposed = []\<rparr>)"
    by code_simp
  show ?thesis using h insert_false_frame[OF h] by simp
qed

text \<open>
  C4, as the specification states it: capacity 2, ascending order, \<^verbatim>\<open>AddAfterEqual\<close>;
  after inserting 4 and 4 the third insert of 4 would return true. It returns false.
\<close>

theorem third_equal_insert_counterexample:
  "\<not> (fst (insert_ranker AddAfterEqual (<) (4::int) (Ranker 2)) \<and>
      fst (insert_ranker AddAfterEqual (<) (4::int) (insert_all AddAfterEqual (<) [4] (Ranker 2))) \<and>
      ranking (insert_all AddAfterEqual (<) [4, 4::int] (Ranker 2)) = [4, 4] \<and>
      fst (insert_ranker AddAfterEqual (<) (4::int) (insert_all AddAfterEqual (<) [4, 4] (Ranker 2))))"
  by code_simp

text \<open>
  C4, amended: capacity 2, ascending order, \<^verbatim>\<open>AddAfterEqual\<close>. Inserting 4 and then 4
  returns true both times and yields [4, 4]. A third equal 4 is placed after the two held
  ones, so it is itself the element evicted and disposed, the two earliest equals stay and
  the insert returns false. The second half of the statement tags each 4 with its
  insertion number (and compares the values only) to show which one leaves.
\<close>

theorem third_equal_insert:
  "insert_ranker AddAfterEqual (<) (4::int) (Ranker 2)
     = (True, \<lparr>ranking = [4], TOP = 2, disposed = []\<rparr>) \<and>
   insert_ranker AddAfterEqual (<) (4::int) \<lparr>ranking = [4], TOP = 2, disposed = []\<rparr>
     = (True, \<lparr>ranking = [4, 4], TOP = 2, disposed = []\<rparr>) \<and>
   insert_ranker AddAfterEqual (<) (4::int) \<lparr>ranking = [4, 4], TOP = 2, disposed = []\<rparr>
     = (False, \<lparr>ranking = [4, 4], TOP = 2, disposed = [4]\<rparr>) \<and>
   insert_ranker AddAfterEqual (\<lambda>a b. fst a < fst b) (4::int, 3::nat)
       (insert_all AddAfterEqual (\<lambda>a b. fst a < fst b) [(4, 1), (4, 2)] (Ranker 2))
     = (False, \<lparr>ranking = [(4, 1), (4, 2)], TOP = 2, disposed = [(4, 3)]\<rparr>)"
  by code_simp

section \<open>Removal steps and the invariants of a run (C2, C3)\<close>

lemma list_remove_filter: "list_remove val xs = filter (\<lambda>x. x \<noteq> val) xs"
  by (induction xs) auto

lemma dispose_equal_filter:
  "dispose_equal element xs trace = trace @ filter (\<lambda>x. element = x) xs"
  by (induction xs arbitrary: trace) auto

lemma dispose_each_append: "dispose_each xs trace = trace @ xs"
  by (induction xs arbitrary: trace) auto

lemma find_pos_le: "find_pos xs val \<le> length xs"
  by (induction xs) auto

lemma find_pos_end_iff: "(find_pos xs val = length xs) = (val \<notin> set xs)"
proof (induction xs)
  case Nil
  show ?case by simp
next
  case (Cons x xs)
  show ?case using Cons find_pos_le[of xs val] by auto
qed

lemma find_pos_nth: "val \<in> set xs \<Longrightarrow> xs ! find_pos xs val = val"
  by (induction xs) auto

lemma find_pos_first: "i < find_pos xs val \<Longrightarrow> xs ! i \<noteq> val"
proof (induction xs arbitrary: i)
  case Nil
  then show ?case by simp
next
  case (Cons x xs)
  then show ?case by (cases i) (auto split: if_splits)
qed

lemma list_erase_Cons_Suc: "list_erase (Suc n) (x # xs) = x # list_erase n xs"
  unfolding list_erase_def by simp

lemma list_erase_Cons_0: "list_erase 0 (x # xs) = xs"
  unfolding list_erase_def by simp

lemma list_erase_find_pos: "val \<in> set xs \<Longrightarrow> list_erase (find_pos xs val) xs = remove1 val xs"
proof (induction xs)
  case Nil
  then show ?case by simp
next
  case (Cons x xs)
  then show ?case by (auto simp: list_erase_Cons_Suc list_erase_Cons_0)
qed

lemma length_list_erase: "pos < length xs \<Longrightarrow> length (list_erase pos xs) = length xs - 1"
  unfolding list_erase_def by simp

lemma ranked_filter: "ranked cmp xs \<Longrightarrow> ranked cmp (filter Q xs)"
  unfolding ranked_def by (rule sorted_wrt_filter)

lemma ranked_Nil: "ranked cmp []"
  unfolding ranked_def by simp

lemma insert_position_lower: "insert_position AddBeforeEqual cmp xs v = lower_bound cmp xs v"
  unfolding insert_position_def equal_range_def by simp

lemma insert_position_upper: "insert_position AddAfterEqual cmp xs v = upper_bound cmp xs v"
  unfolding insert_position_def equal_range_def by simp

lemma ranked_list_insert:
  assumes "strict_weak_order cmp" "ranked cmp xs"
  shows "ranked cmp (list_insert (insert_position behavior cmp xs v) v xs)"
proof (cases behavior)
  case AddBeforeEqual
  then show ?thesis
    using ranked_list_insert_lower[OF assms] by (simp add: insert_position_lower)
next
  case AddAfterEqual
  then show ?thesis
    using ranked_list_insert_upper[OF assms] by (simp add: insert_position_upper)
qed

lemma ranking_insert_ranker:
  "ranking (snd (insert_ranker behavior cmp element s)) =
     (if TOP s \<le> length (ranking s)
      then butlast (list_insert (insert_position behavior cmp (ranking s) element) element (ranking s))
      else list_insert (insert_position behavior cmp (ranking s) element) element (ranking s))"
  unfolding insert_ranker_eq by simp

lemma disposed_insert_ranker:
  "disposed (snd (insert_ranker behavior cmp element s)) =
     (if TOP s \<le> length (ranking s)
      then disposed s @ [last (list_insert (insert_position behavior cmp (ranking s) element) element (ranking s))]
      else disposed s)"
  unfolding insert_ranker_eq by simp

lemma TOP_insert_ranker: "TOP (snd (insert_ranker behavior cmp element s)) = TOP s"
  unfolding insert_ranker_eq by simp

lemma fst_insert_ranker:
  "fst (insert_ranker behavior cmp element s) =
     (length (ranking s) < TOP s \<or>
      insert_position behavior cmp (ranking s) element \<noteq> length (ranking s))"
  unfolding insert_ranker_eq by auto

lemma ranked_insert_ranker:
  assumes "strict_weak_order cmp" "ranked cmp (ranking s)"
  shows "ranked cmp (ranking (snd (insert_ranker behavior cmp element s)))"
  unfolding ranking_insert_ranker
  using ranked_list_insert[OF assms] ranked_butlast by auto

lemma size_insert_ranker:
  "length (ranking s) \<le> TOP s \<Longrightarrow>
   length (ranking (snd (insert_ranker behavior cmp element s))) \<le> TOP s"
  unfolding ranking_insert_ranker by (simp add: length_list_insert)

lemma length_list_remove_le: "length (list_remove val xs) \<le> length xs"
  unfolding list_remove_filter by (rule length_filter_le)

lemma step_TOP: "step behavior cmp x s = Inr s' \<Longrightarrow> TOP s' = TOP s"
  by (cases x)
     (auto simp: TOP_insert_ranker remove_first_def remove_all_def remove_first_ptr_def
        remove_all_ptr_def clear_def Let_def split: if_splits)

lemma step_size:
  "step behavior cmp x s = Inr s' \<Longrightarrow> length (ranking s) \<le> TOP s \<Longrightarrow>
   length (ranking s') \<le> TOP s'"
proof (cases x)
  case (Insert e)
  assume "step behavior cmp x s = Inr s'" "length (ranking s) \<le> TOP s"
  then show ?thesis using Insert size_insert_ranker[of s behavior cmp e]
    by (auto simp: TOP_insert_ranker)
next
  case (RemoveFirst e)
  assume "step behavior cmp x s = Inr s'" "length (ranking s) \<le> TOP s"
  then show ?thesis using RemoveFirst find_pos_le[of "ranking s" e]
    by (auto simp: remove_first_def Let_def length_list_erase split: if_splits)
next
  case (RemoveAll e)
  assume "step behavior cmp x s = Inr s'" "length (ranking s) \<le> TOP s"
  then show ?thesis using RemoveAll le_trans[OF length_list_remove_le[of e "ranking s"], of "TOP s"]
    by (auto simp: remove_all_def)
next
  case (RemoveFirstPtr e)
  assume "step behavior cmp x s = Inr s'" "length (ranking s) \<le> TOP s"
  then show ?thesis using RemoveFirstPtr find_pos_le[of "ranking s" e]
    by (auto simp: remove_first_ptr_def Let_def length_list_erase split: if_splits)
next
  case (RemoveAllPtr e)
  assume "step behavior cmp x s = Inr s'" "length (ranking s) \<le> TOP s"
  then show ?thesis using RemoveAllPtr le_trans[OF length_list_remove_le[of e "ranking s"], of "TOP s"]
    by (auto simp: remove_all_ptr_def)
next
  case Clear
  assume "step behavior cmp x s = Inr s'" "length (ranking s) \<le> TOP s"
  then show ?thesis using Clear by (auto simp: clear_def)
qed

lemma step_ranked:
  assumes swo: "strict_weak_order cmp" and st: "step behavior cmp x s = Inr s'"
    and r: "ranked cmp (ranking s)"
  shows "ranked cmp (ranking s')"
proof (cases x)
  case (Insert e)
  then show ?thesis using st ranked_insert_ranker[OF swo r, of behavior e] by auto
next
  case (RemoveFirst e)
  then show ?thesis using st ranked_list_erase[OF r]
    by (auto simp: remove_first_def Let_def split: if_splits)
next
  case (RemoveAll e)
  then show ?thesis using st ranked_filter[OF r]
    by (auto simp: remove_all_def list_remove_filter)
next
  case (RemoveFirstPtr e)
  then show ?thesis using st ranked_list_erase[OF r]
    by (auto simp: remove_first_ptr_def Let_def split: if_splits)
next
  case (RemoveAllPtr e)
  then show ?thesis using st ranked_filter[OF r]
    by (auto simp: remove_all_ptr_def list_remove_filter)
next
  case Clear
  then show ?thesis using st by (auto simp: clear_def ranked_Nil)
qed

lemma run_size:
  "run behavior cmp ops s = Inr s' \<Longrightarrow> length (ranking s) \<le> TOP s \<Longrightarrow>
   length (ranking s') \<le> TOP s' \<and> TOP s' = TOP s"
proof (induction ops arbitrary: s)
  case Nil
  then show ?case by simp
next
  case (Cons x ops)
  from Cons.prems(1) obtain s1 where s1: "step behavior cmp x s = Inr s1"
    and rest: "run behavior cmp ops s1 = Inr s'"
    by (auto split: sum.splits)
  have "length (ranking s1) \<le> TOP s1" using step_size[OF s1 Cons.prems(2)] .
  then have "length (ranking s') \<le> TOP s' \<and> TOP s' = TOP s1" using Cons.IH[OF rest] by simp
  then show ?case using step_TOP[OF s1] by simp
qed

lemma run_ranked:
  "strict_weak_order cmp \<Longrightarrow> run behavior cmp ops s = Inr s' \<Longrightarrow> ranked cmp (ranking s) \<Longrightarrow>
   ranked cmp (ranking s')"
proof (induction ops arbitrary: s)
  case Nil
  then show ?case by simp
next
  case (Cons x ops)
  from Cons.prems(2) obtain s1 where s1: "step behavior cmp x s = Inr s1"
    and rest: "run behavior cmp ops s1 = Inr s'"
    by (auto split: sum.splits)
  have "ranked cmp (ranking s1)" using step_ranked[OF Cons.prems(1) s1 Cons.prems(3)] .
  then show ?case using Cons.IH[OF Cons.prems(1) rest] by simp
qed

lemma strict_weak_order_less: "strict_weak_order ((<) :: 'a::linorder \<Rightarrow> 'a \<Rightarrow> bool)"
  unfolding strict_weak_order_def equiv_under_def by auto

lemma strict_weak_order_greater: "strict_weak_order ((>) :: 'a::linorder \<Rightarrow> 'a \<Rightarrow> bool)"
  unfolding strict_weak_order_def equiv_under_def by auto

lemma strict_weak_order_key:
  "strict_weak_order (\<lambda>a b. (f a :: 'k::linorder) < f b)"
  unfolding strict_weak_order_def equiv_under_def by auto

lemma ranked_less_sorted: "ranked (<) (xs :: 'a::linorder list) = sorted xs"
  unfolding ranked_def by (simp add: not_less)

lemma ranked_greater_sorted: "ranked (>) (xs :: 'a::linorder list) = sorted (rev xs)"
  unfolding ranked_def by (simp add: not_less sorted_wrt_rev)

lemma Ranker_simps: "ranking (Ranker C) = []" "TOP (Ranker C) = C" "disposed (Ranker C) = []"
  unfolding Ranker_def by simp_all

text \<open>
  C2. From a newly constructed ranking with capacity \<open>C\<close>, after every sequence of
  operations that completes, \<^verbatim>\<open>size() <= C\<close> (invariant I1) and the capacity is still
  \<open>C\<close>. Inside a following \<^verbatim>\<open>insert\<close> the list grows by one, so it exceeds \<open>C\<close> by at
  most one; when it does, exactly the last element is erased and disposed, and the bound
  holds again when \<^verbatim>\<open>insert\<close> returns.
\<close>

theorem capacity_invariant:
  assumes "run behavior cmp ops (Ranker C) = Inr s"
  shows "size_ranker s \<le> C \<and> TOP s = C \<and>
    (let inserted = list_insert (insert_position behavior cmp (ranking s) element) element (ranking s);
         s' = snd (insert_ranker behavior cmp element s)
     in length inserted = size_ranker s + 1 \<and> length inserted \<le> C + 1 \<and>
        (size_ranker s < C \<longrightarrow> ranking s' = inserted \<and> disposed s' = disposed s) \<and>
        (size_ranker s = C \<longrightarrow>
           ranking s' = butlast inserted \<and> disposed s' = disposed s @ [last inserted]) \<and>
        size_ranker s' \<le> C)"
proof -
  have inv: "length (ranking s) \<le> TOP s \<and> TOP s = C"
    using run_size[OF assms] by (simp add: Ranker_simps)
  have after: "length (ranking (snd (insert_ranker behavior cmp element s))) \<le> TOP s"
    using inv size_insert_ranker[of s behavior cmp element] by simp
  show ?thesis
    unfolding Let_def size_ranker_def
    using inv after
    by (auto simp: length_list_insert ranking_insert_ranker disposed_insert_ranker)
qed

theorem capacity_invariant_witness:
  "run AddAfterEqual (<) [Insert 5, Insert 3, Insert 8, Insert (1::int)] (Ranker 3)
     = Inr \<lparr>ranking = [1, 3, 5], TOP = 3, disposed = [8]\<rparr> \<and>
   size_ranker \<lparr>ranking = [1, 3, 5::int], TOP = 3, disposed = [8]\<rparr> \<le> 3 \<and>
   ranking (snd (insert_ranker AddAfterEqual (<) 2 \<lparr>ranking = [1, 3, 5::int], TOP = 3, disposed = [8]\<rparr>))
     = butlast (list_insert (insert_position AddAfterEqual (<) [1, 3, 5::int] 2) 2 [1, 3, 5]) \<and>
   run AddAfterEqual (<) [Insert 5, Insert (3::int)] (Ranker 3)
     = Inr \<lparr>ranking = [3, 5], TOP = 3, disposed = []\<rparr> \<and>
   ranking (snd (insert_ranker AddAfterEqual (<) 2 \<lparr>ranking = [3, 5::int], TOP = 3, disposed = []\<rparr>))
     = list_insert (insert_position AddAfterEqual (<) [3, 5::int] 2) 2 [3, 5]"
proof -
  have full: "run AddAfterEqual (<) [Insert 5, Insert 3, Insert 8, Insert (1::int)] (Ranker 3)
     = Inr \<lparr>ranking = [1, 3, 5], TOP = 3, disposed = [8]\<rparr>"
    by code_simp
  have part: "run AddAfterEqual (<) [Insert 5, Insert (3::int)] (Ranker 3)
     = Inr \<lparr>ranking = [3, 5], TOP = 3, disposed = []\<rparr>"
    by code_simp
  have at_capacity: "size_ranker \<lparr>ranking = [1, 3, 5::int], TOP = 3, disposed = [8]\<rparr> = 3"
    by (simp add: size_ranker_def)
  have below: "size_ranker \<lparr>ranking = [3, 5::int], TOP = 3, disposed = []\<rparr> < 3"
    by (simp add: size_ranker_def)
  have a: "ranking (snd (insert_ranker AddAfterEqual (<) 2 \<lparr>ranking = [1, 3, 5::int], TOP = 3, disposed = [8]\<rparr>))
     = butlast (list_insert (insert_position AddAfterEqual (<) [1, 3, 5::int] 2) 2 [1, 3, 5])"
    using capacity_invariant[OF full, of 2] at_capacity unfolding Let_def
    by simp
  have b: "ranking (snd (insert_ranker AddAfterEqual (<) 2 \<lparr>ranking = [3, 5::int], TOP = 3, disposed = []\<rparr>))
     = list_insert (insert_position AddAfterEqual (<) [3, 5::int] 2) 2 [3, 5]"
    using capacity_invariant[OF part, of 2] below unfolding Let_def
    by simp
  have c: "size_ranker \<lparr>ranking = [1, 3, 5::int], TOP = 3, disposed = [8]\<rparr> \<le> 3"
    using capacity_invariant[OF full] by blast
  show ?thesis using full part a b c by (intro conjI)
qed

text \<open>
  C3. With \<^verbatim>\<open>Comp\<close> a strict weak order, every state reached from a newly constructed
  ranking by any sequence of operations (\<^verbatim>\<open>insert\<close>, both \<^verbatim>\<open>remove_first\<close>, both
  \<^verbatim>\<open>remove_all\<close>, \<^verbatim>\<open>clear\<close>) is sorted from top to bottom under \<^verbatim>\<open>Comp\<close> (invariant I2),
  and every single operation preserves sortedness. For \<open>(<)\<close> this is ascending order,
  for \<open>(>)\<close> descending order (\<open>ranked_less_sorted\<close>, \<open>ranked_greater_sorted\<close>).
\<close>

theorem sortedness_invariant:
  assumes "strict_weak_order cmp"
  shows "(run behavior cmp ops (Ranker C) = Inr s \<longrightarrow> ranked cmp (ranking s)) \<and>
         (ranked cmp (ranking s0) \<and> step behavior cmp x s0 = Inr s1 \<longrightarrow> ranked cmp (ranking s1))"
proof (intro conjI impI)
  assume "run behavior cmp ops (Ranker C) = Inr s"
  then show "ranked cmp (ranking s)"
    using run_ranked[OF assms, of behavior ops "Ranker C" s] by (simp add: Ranker_simps ranked_Nil)
next
  assume "ranked cmp (ranking s0) \<and> step behavior cmp x s0 = Inr s1"
  then show "ranked cmp (ranking s1)" using step_ranked[OF assms] by blast
qed

theorem sortedness_invariant_witness:
  "strict_weak_order ((<) :: int \<Rightarrow> int \<Rightarrow> bool) \<and>
   run AddBeforeEqual (<) [Insert 5, Insert 3, Insert 8, Insert 1, RemoveFirst 3, Insert 5, RemoveAll (8::int)]
       (Ranker 3) = Inr \<lparr>ranking = [1, 5, 5], TOP = 3, disposed = [8, 3]\<rparr> \<and>
   ranked (<) [1, 5, 5::int] \<and>
   step AddBeforeEqual (<) (Insert 4) \<lparr>ranking = [1, 5, 5::int], TOP = 3, disposed = [8, 3]\<rparr>
     = Inr \<lparr>ranking = [1, 4, 5], TOP = 3, disposed = [8, 3, 5]\<rparr> \<and>
   ranked (<) [1, 4, 5::int]"
proof -
  have r: "run AddBeforeEqual (<) [Insert 5, Insert 3, Insert 8, Insert 1, RemoveFirst 3, Insert 5, RemoveAll (8::int)]
       (Ranker 3) = Inr \<lparr>ranking = [1, 5, 5], TOP = 3, disposed = [8, 3]\<rparr>"
    by code_simp
  have st: "step AddBeforeEqual (<) (Insert 4) \<lparr>ranking = [1, 5, 5::int], TOP = 3, disposed = [8, 3]\<rparr>
     = Inr \<lparr>ranking = [1, 4, 5], TOP = 3, disposed = [8, 3, 5]\<rparr>"
    by code_simp
  have swo: "strict_weak_order ((<) :: int \<Rightarrow> int \<Rightarrow> bool)" by (rule strict_weak_order_less)
  show ?thesis
    using swo r st
      sortedness_invariant[OF swo, of AddBeforeEqual
        "[Insert 5, Insert 3, Insert 8, Insert 1, RemoveFirst 3, Insert 5, RemoveAll 8]" 3
        "\<lparr>ranking = [1, 5, 5], TOP = 3, disposed = [8, 3]\<rparr>"
        "\<lparr>ranking = [1, 5, 5], TOP = 3, disposed = [8, 3]\<rparr>" "Insert 4"
        "\<lparr>ranking = [1, 4, 5], TOP = 3, disposed = [8, 3, 5]\<rparr>"]
    by simp
qed

section \<open>The removal operations (C7, C8, C9)\<close>

lemma find_pos_split:
  assumes "val \<in> set xs"
  shows "xs = take (find_pos xs val) xs @ val # drop (Suc (find_pos xs val)) xs \<and>
         val \<notin> set (take (find_pos xs val) xs)"
proof -
  let ?p = "find_pos xs val"
  have lt: "?p < length xs"
    using find_pos_le[of xs val] find_pos_end_iff[of xs val] assms by linarith
  have "xs = take ?p xs @ xs ! ?p # drop (Suc ?p) xs"
    using lt by (simp add: id_take_nth_drop[symmetric])
  then have a: "xs = take ?p xs @ val # drop (Suc ?p) xs"
    using find_pos_nth[OF assms] by simp
  have b: "val \<notin> set (take ?p xs)"
  proof
    assume "val \<in> set (take ?p xs)"
    then obtain i where i: "i < length (take ?p xs)" "take ?p xs ! i = val"
      by (auto simp: in_set_conv_nth)
    then have "i < ?p" by simp
    moreover from this have "xs ! i = val" using i(2) by simp
    ultimately show False using find_pos_first[of i xs val] by simp
  qed
  show ?thesis using a b by (rule conjI)
qed

lemma remove_first_found:
  assumes "element \<in> set (ranking s)"
  shows "remove_first element s =
           Inr (s\<lparr>ranking := list_erase (find_pos (ranking s) element) (ranking s),
                   disposed := disposed s @ [element]\<rparr>)"
  using assms find_pos_end_iff[of "ranking s" element] find_pos_nth[OF assms]
  unfolding remove_first_def Let_def by simp

lemma remove_first_absent:
  "element \<notin> set (ranking s) \<Longrightarrow> remove_first element s = Inl DerefEnd"
  using find_pos_end_iff[of "ranking s" element]
  unfolding remove_first_def Let_def by simp

lemma remove_first_ptr_found:
  assumes "element \<in> set (ranking s)"
  shows "remove_first_ptr element s =
           Inr (s\<lparr>ranking := list_erase (find_pos (ranking s) element) (ranking s),
                   disposed := disposed s @ [element]\<rparr>)"
  using assms find_pos_end_iff[of "ranking s" element]
  unfolding remove_first_ptr_def Let_def by simp

lemma remove_first_ptr_absent:
  "element \<notin> set (ranking s) \<Longrightarrow> remove_first_ptr element s = Inl EraseEnd"
  using find_pos_end_iff[of "ranking s" element]
  unfolding remove_first_ptr_def Let_def by simp

lemma list_remove_absent: "val \<notin> set xs \<Longrightarrow> list_remove val xs = xs"
  by (induction xs) auto

text \<open>
  C7. \<^verbatim>\<open>remove_all(const T&)\<close> removes every element equal to \<open>element\<close> and calls the
  disposal action on each of them, front to back, and on nothing else. Every other element
  remains, in the same relative order; the capacity is unchanged; a sorted sequence stays
  sorted.
\<close>

theorem remove_all_by_value:
  "ranking (remove_all element s) = filter (\<lambda>x. x \<noteq> element) (ranking s) \<and>
   disposed (remove_all element s) = disposed s @ filter (\<lambda>x. x = element) (ranking s) \<and>
   TOP (remove_all element s) = TOP s \<and>
   element \<notin> set (ranking (remove_all element s)) \<and>
   mset (ranking s) = mset (ranking (remove_all element s)) + mset (filter (\<lambda>x. x = element) (ranking s)) \<and>
   (ranked cmp (ranking s) \<longrightarrow> ranked cmp (ranking (remove_all element s)))"
proof -
  have r: "ranking (remove_all element s) = filter (\<lambda>x. x \<noteq> element) (ranking s)"
    unfolding remove_all_def by (simp add: list_remove_filter)
  have d: "disposed (remove_all element s) = disposed s @ filter (\<lambda>x. x = element) (ranking s)"
    unfolding remove_all_def by (simp add: dispose_equal_filter eq_commute)
  have t: "TOP (remove_all element s) = TOP s"
    unfolding remove_all_def by simp
  have n: "element \<notin> set (ranking (remove_all element s))"
    unfolding r by simp
  have m: "mset (ranking s) = mset (ranking (remove_all element s)) + mset (filter (\<lambda>x. x = element) (ranking s))"
    unfolding r by (induction "ranking s") auto
  have k: "ranked cmp (ranking s) \<longrightarrow> ranked cmp (ranking (remove_all element s))"
    unfolding r by (simp add: ranked_filter)
  show ?thesis using r d t n m k by (intro conjI)
qed

theorem remove_all_by_value_witness:
  "ranked (<) (ranking \<lparr>ranking = [1, 4, 4, 7::int], TOP = 5, disposed = []\<rparr>) \<and>
   remove_all 4 \<lparr>ranking = [1, 4, 4, 7::int], TOP = 5, disposed = []\<rparr>
     = \<lparr>ranking = [1, 7], TOP = 5, disposed = [4, 4]\<rparr> \<and>
   ranked (<) (ranking (remove_all 4 \<lparr>ranking = [1, 4, 4, 7::int], TOP = 5, disposed = []\<rparr>))"
proof -
  have h: "ranked (<) (ranking \<lparr>ranking = [1, 4, 4, 7::int], TOP = 5, disposed = []\<rparr>)"
    by (simp add: ranked_def)
  have e: "remove_all 4 \<lparr>ranking = [1, 4, 4, 7::int], TOP = 5, disposed = []\<rparr>
     = \<lparr>ranking = [1, 7], TOP = 5, disposed = [4, 4]\<rparr>"
    by (simp add: remove_all_def)
  have k: "ranked (<) (ranking (remove_all 4 \<lparr>ranking = [1, 4, 4, 7::int], TOP = 5, disposed = []\<rparr>))"
    using h remove_all_by_value[of 4 "\<lparr>ranking = [1, 4, 4, 7::int], TOP = 5, disposed = []\<rparr>" "(<)"]
    by blast
  show ?thesis using h e k by (intro conjI)
qed

text \<open>
  C8. \<^verbatim>\<open>remove_first(const T&)\<close>: when an element equal to \<open>element\<close> (by \<open>=\<close>, not by
  \<^verbatim>\<open>Comp\<close>) is present, the call removes exactly the first such element, disposes it and
  leaves every other element, the capacity and the earlier trace unchanged. When no such
  element is present the call dereferences \<^verbatim>\<open>end()\<close>; so the call is free of undefined
  behaviour exactly when the precondition holds.
\<close>

theorem remove_first_by_value:
  "(element \<in> set (ranking s) \<longrightarrow>
      (\<exists>before after.
         ranking s = before @ element # after \<and> element \<notin> set before \<and>
         remove_first element s =
           Inr (s\<lparr>ranking := before @ after, disposed := disposed s @ [element]\<rparr>)) \<and>
      remove_first element s =
        Inr (s\<lparr>ranking := remove1 element (ranking s), disposed := disposed s @ [element]\<rparr>)) \<and>
   ((\<exists>err. remove_first element s = Inl err) = (element \<notin> set (ranking s))) \<and>
   (element \<notin> set (ranking s) \<longrightarrow> remove_first element s = Inl DerefEnd)"
proof (intro conjI impI)
  assume in_r: "element \<in> set (ranking s)"
  let ?p = "find_pos (ranking s) element"
  have sp: "ranking s = take ?p (ranking s) @ element # drop (Suc ?p) (ranking s)"
    and nb: "element \<notin> set (take ?p (ranking s))"
    using find_pos_split[OF in_r] by simp_all
  have "remove_first element s =
          Inr (s\<lparr>ranking := take ?p (ranking s) @ drop (Suc ?p) (ranking s),
                  disposed := disposed s @ [element]\<rparr>)"
    using remove_first_found[OF in_r] unfolding list_erase_def .
  then show "\<exists>before after.
         ranking s = before @ element # after \<and> element \<notin> set before \<and>
         remove_first element s =
           Inr (s\<lparr>ranking := before @ after, disposed := disposed s @ [element]\<rparr>)"
    using sp nb by blast
  show "remove_first element s =
        Inr (s\<lparr>ranking := remove1 element (ranking s), disposed := disposed s @ [element]\<rparr>)"
    using remove_first_found[OF in_r] list_erase_find_pos[OF in_r] by simp
next
  show "(\<exists>err. remove_first element s = Inl err) = (element \<notin> set (ranking s))"
    using remove_first_found[of element s] remove_first_absent[of element s] by auto
next
  assume "element \<notin> set (ranking s)"
  then show "remove_first element s = Inl DerefEnd" by (rule remove_first_absent)
qed

theorem remove_first_by_value_witness:
  "(4::int) \<in> set (ranking \<lparr>ranking = [1, 4, 4, 7::int], TOP = 5, disposed = []\<rparr>) \<and>
   remove_first 4 \<lparr>ranking = [1, 4, 4, 7::int], TOP = 5, disposed = []\<rparr>
     = Inr \<lparr>ranking = [1, 4, 7], TOP = 5, disposed = [4]\<rparr> \<and>
   (5::int) \<notin> set (ranking \<lparr>ranking = [1, 4, 4, 7::int], TOP = 5, disposed = []\<rparr>) \<and>
   remove_first 5 \<lparr>ranking = [1, 4, 4, 7::int], TOP = 5, disposed = []\<rparr> = Inl DerefEnd"
proof -
  have a: "(4::int) \<in> set (ranking \<lparr>ranking = [1, 4, 4, 7::int], TOP = 5, disposed = []\<rparr>)"
    by simp
  have b: "(5::int) \<notin> set (ranking \<lparr>ranking = [1, 4, 4, 7::int], TOP = 5, disposed = []\<rparr>)"
    by simp
  show ?thesis
    using a b
      remove_first_by_value[of 4 "\<lparr>ranking = [1, 4, 4, 7::int], TOP = 5, disposed = []\<rparr>"]
      remove_first_by_value[of 5 "\<lparr>ranking = [1, 4, 4, 7::int], TOP = 5, disposed = []\<rparr>"]
    by simp
qed

lemma remove_all_ptr_eq:
  "remove_all_ptr element s =
     s\<lparr>ranking := filter (\<lambda>x. x \<noteq> element) (ranking s), disposed := disposed s @ [element]\<rparr>"
  unfolding remove_all_ptr_def by (simp add: list_remove_filter)

text \<open>
  C9. The claim: \<^verbatim>\<open>remove_all(T*)\<close> removes every occurrence identical to \<open>element\<close>
  and disposes the matched handles only, as the by-value overload does; when no occurrence
  matches, no disposal action is invoked and the sequence is unchanged. The code calls
  \<^verbatim>\<open>DisposalPolicy()(element)\<close> before \<^verbatim>\<open>ranking.remove(element)\<close>, whatever the
  sequence holds. On the ranking [1] and the argument 2, which is not held, the sequence is
  unchanged but 2 is disposed, where \<^verbatim>\<open>remove_all(const T&)\<close> disposes nothing. On
  [1, 4, 4, 7] and the argument 4 both occurrences leave with a single disposal, where
  \<^verbatim>\<open>remove_all(const T&)\<close> disposes each.
\<close>

theorem remove_all_identity_no_match:
  "remove_all_ptr (2::int) \<lparr>ranking = [1], TOP = 3, disposed = []\<rparr>
     = \<lparr>ranking = [1], TOP = 3, disposed = [2]\<rparr> \<and>
   remove_all (2::int) \<lparr>ranking = [1], TOP = 3, disposed = []\<rparr>
     = \<lparr>ranking = [1], TOP = 3, disposed = []\<rparr> \<and>
   remove_all_ptr (4::int) \<lparr>ranking = [1, 4, 4, 7], TOP = 5, disposed = []\<rparr>
     = \<lparr>ranking = [1, 7], TOP = 5, disposed = [4]\<rparr> \<and>
   remove_all (4::int) \<lparr>ranking = [1, 4, 4, 7], TOP = 5, disposed = []\<rparr>
     = \<lparr>ranking = [1, 7], TOP = 5, disposed = [4, 4]\<rparr>"
  by (simp add: remove_all_ptr_def remove_all_def)

section \<open>Disposal accounting\<close>

lemma mset_butlast_last: "xs \<noteq> [] \<Longrightarrow> mset (butlast xs) + {#last xs#} = mset xs"
proof -
  assume "xs \<noteq> []"
  then have "butlast xs @ [last xs] = xs" by simp
  then have "mset (butlast xs @ [last xs]) = mset xs" by simp
  then show ?thesis by (simp only: mset_append mset.simps)
qed

lemma insert_ranker_accounting:
  "\<exists>d. disposed (snd (insert_ranker behavior cmp element s)) = disposed s @ d \<and>
       mset (ranking s) + {#element#} =
         mset (ranking (snd (insert_ranker behavior cmp element s))) + mset d"
proof (cases "TOP s \<le> length (ranking s)")
  case True
  let ?ins = "list_insert (insert_position behavior cmp (ranking s) element) element (ranking s)"
  have "mset (butlast ?ins) + {#last ?ins#} = mset ?ins"
    by (rule mset_butlast_last[OF list_insert_nonempty])
  then have "mset (ranking s) + {#element#} = mset (butlast ?ins) + mset [last ?ins]"
    by (simp add: mset_list_insert)
  then show ?thesis
    using True by (simp add: ranking_insert_ranker disposed_insert_ranker)
next
  case False
  then show ?thesis
    by (simp add: ranking_insert_ranker disposed_insert_ranker mset_list_insert)
qed

lemma mset_filter_split: "mset xs = mset (filter (\<lambda>x. x \<noteq> v) xs) + mset (filter (\<lambda>x. x = v) xs)"
  by (induction xs) auto

lemma step_accounting:
  assumes "step behavior cmp x s = Inr s'" "by_value x"
  shows "\<exists>d. disposed s' = disposed s @ d \<and>
             mset (ranking s) + mset (entering x) = mset (ranking s') + mset d"
proof (cases x)
  case (Insert e)
  then show ?thesis using assms(1) insert_ranker_accounting[of behavior cmp e s] by auto
next
  case (RemoveFirst e)
  show ?thesis
  proof (cases "e \<in> set (ranking s)")
    case True
    have "s' = s\<lparr>ranking := remove1 e (ranking s), disposed := disposed s @ [e]\<rparr>"
      using assms(1) RemoveFirst remove_first_found[OF True] list_erase_find_pos[OF True] by simp
    then show ?thesis using RemoveFirst True by simp
  next
    case False
    then show ?thesis using assms(1) RemoveFirst remove_first_absent[OF False] by simp
  qed
next
  case (RemoveAll e)
  have "s' = remove_all e s" using assms(1) RemoveAll by simp
  then show ?thesis
    using RemoveAll mset_filter_split[of "ranking s" e]
    by (simp add: remove_all_def list_remove_filter dispose_equal_filter eq_commute)
next
  case (RemoveFirstPtr e)
  then show ?thesis using assms(2) by simp
next
  case (RemoveAllPtr e)
  then show ?thesis using assms(2) by simp
next
  case Clear
  then show ?thesis using assms(1) by (auto simp: clear_def dispose_each_append)
qed

lemma run_accounting:
  "run behavior cmp ops s = Inr s' \<Longrightarrow> list_all by_value ops \<Longrightarrow>
   mset (ranking s) + mset (disposed s) + mset (concat (map entering ops))
     = mset (ranking s') + mset (disposed s')"
proof (induction ops arbitrary: s)
  case Nil
  then show ?case by simp
next
  case (Cons x ops)
  from Cons.prems(1) obtain s1 where s1: "step behavior cmp x s = Inr s1"
    and rest: "run behavior cmp ops s1 = Inr s'"
    by (auto split: sum.splits)
  have bx: "by_value x" and bo: "list_all by_value ops" using Cons.prems(2) by simp_all
  obtain d where d: "disposed s1 = disposed s @ d"
    "mset (ranking s) + mset (entering x) = mset (ranking s1) + mset d"
    using step_accounting[OF s1 bx] by blast
  have "mset (ranking s1) + mset (disposed s1) + mset (concat (map entering ops))
     = mset (ranking s') + mset (disposed s')"
    using Cons.IH[OF rest bo] .
  moreover have "mset (ranking s) + mset (disposed s) + mset (concat (map entering (x # ops)))
     = mset (ranking s1) + mset (disposed s1) + mset (concat (map entering ops))"
    using d by (simp add: ac_simps)
  ultimately show ?case by simp
qed

lemma clear_eq: "clear s = s\<lparr>ranking := [], disposed := disposed s @ ranking s\<rparr>"
  unfolding clear_def by (simp add: dispose_each_append)

lemma filter_neq_remove1: "count_list xs h = 1 \<Longrightarrow> filter (\<lambda>x. x \<noteq> h) xs = remove1 h xs"
proof (induction xs)
  case Nil
  then show ?case by simp
next
  case (Cons x xs)
  show ?case
  proof (cases "x = h")
    case True
    then have "count_list xs h = 0" using Cons.prems by simp
    then have "h \<notin> set xs" by (simp add: count_list_0_iff)
    then have "filter (\<lambda>x. x \<noteq> h) xs = xs" by (auto simp: filter_id_conv)
    then show ?thesis using True by simp
  next
    case False
    then show ?thesis using Cons by simp
  qed
qed

lemma count_list_1_mem: "count_list xs h = 1 \<Longrightarrow> h \<in> set xs"
  using count_list_0_iff[of xs h] by auto

lemma mset_remove1_add: "h \<in> set xs \<Longrightarrow> mset xs = mset (remove1 h xs) + {#h#}"
  by simp

text \<open>
  Disposal accounting for the operations that take their argument by value. Take any run
  of \<^verbatim>\<open>insert\<close>, \<^verbatim>\<open>remove_first(const T&)\<close>, \<^verbatim>\<open>remove_all(const T&)\<close> and \<^verbatim>\<open>clear\<close>
  from a new ranking. Counting occurrences, the elements handed to \<^verbatim>\<open>insert\<close> are
  exactly the elements still held together with the elements disposed: whatever has left
  was disposed exactly once and nothing held was disposed; if the inserted elements are
  pairwise distinct, no element is disposed twice and no disposed element is held. The same
  accounting holds for each further such operation alone. An \<^verbatim>\<open>insert\<close> on a ranking
  below capacity disposes nothing, an overflowing one disposes exactly the element it
  erases. The destructor disposes all that is still held, after which everything ever
  inserted has been disposed once. The overloads taking \<^verbatim>\<open>T*\<close> dispose their
  argument: only for a handle held exactly once is that the element that leaves.
\<close>

theorem disposal_completeness:
  assumes "run behavior cmp ops (Ranker C) = Inr s" and "list_all by_value ops"
  shows
   "mset (concat (map entering ops)) = mset (ranking s) + mset (disposed s) \<and>
    (distinct (concat (map entering ops)) \<longrightarrow>
       distinct (disposed s) \<and> set (disposed s) \<inter> set (ranking s) = {}) \<and>
    (by_value x \<and> step behavior cmp x s = Inr s' \<longrightarrow>
       (\<exists>d. disposed s' = disposed s @ d \<and>
            mset (ranking s) + mset (entering x) = mset (ranking s') + mset d)) \<and>
    (length (ranking s) < TOP s \<longrightarrow>
       disposed (snd (insert_ranker behavior cmp element s)) = disposed s) \<and>
    (TOP s \<le> length (ranking s) \<longrightarrow>
       list_insert (insert_position behavior cmp (ranking s) element) element (ranking s)
         = ranking (snd (insert_ranker behavior cmp element s)) @
           [last (list_insert (insert_position behavior cmp (ranking s) element) element (ranking s))] \<and>
       disposed (snd (insert_ranker behavior cmp element s))
         = disposed s @
           [last (list_insert (insert_position behavior cmp (ranking s) element) element (ranking s))]) \<and>
    ranking (destroy s) = [] \<and>
    disposed (destroy s) = disposed s @ ranking s \<and>
    mset (disposed (destroy s)) = mset (concat (map entering ops)) \<and>
    (count_list (ranking s) h = 1 \<longrightarrow>
       remove_first_ptr h s = Inr (s\<lparr>ranking := remove1 h (ranking s), disposed := disposed s @ [h]\<rparr>) \<and>
       remove_all_ptr h s = s\<lparr>ranking := remove1 h (ranking s), disposed := disposed s @ [h]\<rparr> \<and>
       mset (ranking s) = mset (remove1 h (ranking s)) + {#h#})"
proof -
  let ?ins = "list_insert (insert_position behavior cmp (ranking s) element) element (ranking s)"
  have acc: "mset (concat (map entering ops)) = mset (ranking s) + mset (disposed s)"
    using run_accounting[OF assms] by (simp add: Ranker_simps)
  have dist: "distinct (concat (map entering ops)) \<longrightarrow>
       distinct (disposed s) \<and> set (disposed s) \<inter> set (ranking s) = {}"
  proof
    assume "distinct (concat (map entering ops))"
    then have "distinct (ranking s @ disposed s)"
      using acc by (metis distinct_count_atmost_1 mset_append set_mset_mset mset_eq_setD)
    then show "distinct (disposed s) \<and> set (disposed s) \<inter> set (ranking s) = {}" by auto
  qed
  have stp: "by_value x \<and> step behavior cmp x s = Inr s' \<longrightarrow>
       (\<exists>d. disposed s' = disposed s @ d \<and>
            mset (ranking s) + mset (entering x) = mset (ranking s') + mset d)"
    using step_accounting[of behavior cmp x s s'] by blast
  have below: "length (ranking s) < TOP s \<longrightarrow>
       disposed (snd (insert_ranker behavior cmp element s)) = disposed s"
    by (simp add: disposed_insert_ranker)
  have over: "TOP s \<le> length (ranking s) \<longrightarrow>
       ?ins = ranking (snd (insert_ranker behavior cmp element s)) @ [last ?ins] \<and>
       disposed (snd (insert_ranker behavior cmp element s)) = disposed s @ [last ?ins]"
    using list_insert_nonempty[of "insert_position behavior cmp (ranking s) element" element "ranking s"]
    by (simp add: ranking_insert_ranker disposed_insert_ranker)
  have d1: "ranking (destroy s) = []" and d2: "disposed (destroy s) = disposed s @ ranking s"
    unfolding destroy_def clear_eq by simp_all
  have d3: "mset (disposed (destroy s)) = mset (concat (map entering ops))"
    unfolding d2 acc by simp
  have ptr: "count_list (ranking s) h = 1 \<longrightarrow>
       remove_first_ptr h s = Inr (s\<lparr>ranking := remove1 h (ranking s), disposed := disposed s @ [h]\<rparr>) \<and>
       remove_all_ptr h s = s\<lparr>ranking := remove1 h (ranking s), disposed := disposed s @ [h]\<rparr> \<and>
       mset (ranking s) = mset (remove1 h (ranking s)) + {#h#}"
  proof
    assume c: "count_list (ranking s) h = 1"
    have m: "h \<in> set (ranking s)" using count_list_1_mem[OF c] .
    have a: "remove_first_ptr h s = Inr (s\<lparr>ranking := remove1 h (ranking s), disposed := disposed s @ [h]\<rparr>)"
      using remove_first_ptr_found[OF m] list_erase_find_pos[OF m] by simp
    have b: "remove_all_ptr h s = s\<lparr>ranking := remove1 h (ranking s), disposed := disposed s @ [h]\<rparr>"
      unfolding remove_all_ptr_def list_remove_filter filter_neq_remove1[OF c] ..
    show "remove_first_ptr h s = Inr (s\<lparr>ranking := remove1 h (ranking s), disposed := disposed s @ [h]\<rparr>) \<and>
       remove_all_ptr h s = s\<lparr>ranking := remove1 h (ranking s), disposed := disposed s @ [h]\<rparr> \<and>
       mset (ranking s) = mset (remove1 h (ranking s)) + {#h#}"
      using a b mset_remove1_add[OF m] by (intro conjI)
  qed
  show ?thesis using acc dist stp below over d1 d2 d3 ptr by (intro conjI)
qed

theorem disposal_completeness_witness:
  "run AddAfterEqual (<) [Insert 5, Insert 3, Insert 8, Insert 1, RemoveFirst 3, Insert 6, Insert (2::int)] (Ranker 3)
     = Inr \<lparr>ranking = [1, 2, 5], TOP = 3, disposed = [8, 3, 6]\<rparr> \<and>
   list_all by_value [Insert 5, Insert 3, Insert 8, Insert 1, RemoveFirst 3, Insert 6, Insert (2::int)] \<and>
   distinct (concat (map entering [Insert 5, Insert 3, Insert 8, Insert 1, RemoveFirst 3, Insert 6, Insert (2::int)])) \<and>
   mset (concat (map entering [Insert 5, Insert 3, Insert 8, Insert 1, RemoveFirst 3, Insert 6, Insert (2::int)]))
     = mset (ranking \<lparr>ranking = [1, 2, 5], TOP = 3, disposed = [8, 3, 6]\<rparr>)
       + mset (disposed \<lparr>ranking = [1, 2, 5::int], TOP = 3, disposed = [8, 3, 6]\<rparr>) \<and>
   distinct (disposed \<lparr>ranking = [1, 2, 5::int], TOP = 3, disposed = [8, 3, 6]\<rparr>) \<and>
   set (disposed \<lparr>ranking = [1, 2, 5::int], TOP = 3, disposed = [8, 3, 6]\<rparr>)
     \<inter> set (ranking \<lparr>ranking = [1, 2, 5::int], TOP = 3, disposed = [8, 3, 6]\<rparr>) = {} \<and>
   step AddAfterEqual (<) (RemoveAll 5) \<lparr>ranking = [1, 2, 5::int], TOP = 3, disposed = [8, 3, 6]\<rparr>
     = Inr \<lparr>ranking = [1, 2], TOP = 3, disposed = [8, 3, 6, 5]\<rparr> \<and>
   (\<exists>d. disposed \<lparr>ranking = [1, 2::int], TOP = 3, disposed = [8, 3, 6, 5]\<rparr>
          = disposed \<lparr>ranking = [1, 2, 5::int], TOP = 3, disposed = [8, 3, 6]\<rparr> @ d \<and>
        mset (ranking \<lparr>ranking = [1, 2, 5::int], TOP = 3, disposed = [8, 3, 6]\<rparr>)
          + mset (entering (RemoveAll 5))
          = mset (ranking \<lparr>ranking = [1, 2::int], TOP = 3, disposed = [8, 3, 6, 5]\<rparr>) + mset d) \<and>
   insert_ranker AddAfterEqual (<) 4 \<lparr>ranking = [1, 2, 5::int], TOP = 3, disposed = [8, 3, 6]\<rparr>
     = (True, \<lparr>ranking = [1, 2, 4], TOP = 3, disposed = [8, 3, 6, 5]\<rparr>) \<and>
   disposed (snd (insert_ranker AddAfterEqual (<) 4 \<lparr>ranking = [1, 2, 5::int], TOP = 3, disposed = [8, 3, 6]\<rparr>))
     = disposed \<lparr>ranking = [1, 2, 5::int], TOP = 3, disposed = [8, 3, 6]\<rparr> @
       [last (list_insert (insert_position AddAfterEqual (<)
                (ranking \<lparr>ranking = [1, 2, 5::int], TOP = 3, disposed = [8, 3, 6]\<rparr>) 4) 4
                (ranking \<lparr>ranking = [1, 2, 5::int], TOP = 3, disposed = [8, 3, 6]\<rparr>))] \<and>
   count_list (ranking \<lparr>ranking = [1, 2, 5::int], TOP = 3, disposed = [8, 3, 6]\<rparr>) 2 = 1 \<and>
   remove_all_ptr 2 \<lparr>ranking = [1, 2, 5::int], TOP = 3, disposed = [8, 3, 6]\<rparr>
     = \<lparr>ranking = [1, 2, 5::int], TOP = 3, disposed = [8, 3, 6]\<rparr>
         \<lparr>ranking := remove1 2 (ranking \<lparr>ranking = [1, 2, 5::int], TOP = 3, disposed = [8, 3, 6]\<rparr>),
          disposed := disposed \<lparr>ranking = [1, 2, 5::int], TOP = 3, disposed = [8, 3, 6]\<rparr> @ [2]\<rparr> \<and>
   disposed (destroy \<lparr>ranking = [1, 2, 5::int], TOP = 3, disposed = [8, 3, 6]\<rparr>) = [8, 3, 6, 1, 2, 5]"
proof -
  let ?ops = "[Insert 5, Insert 3, Insert 8, Insert 1, RemoveFirst 3, Insert 6, Insert (2::int)]"
  let ?S = "\<lparr>ranking = [1, 2, 5::int], TOP = 3, disposed = [8, 3, 6]\<rparr>"
  let ?S' = "\<lparr>ranking = [1, 2::int], TOP = 3, disposed = [8, 3, 6, 5]\<rparr>"
  have r: "run AddAfterEqual (<) ?ops (Ranker 3) = Inr ?S" by code_simp
  have bv: "list_all by_value ?ops" by simp
  have dst: "distinct (concat (map entering ?ops))" by simp
  have st: "step AddAfterEqual (<) (RemoveAll 5) ?S = Inr ?S'" by code_simp
  have bx: "by_value (RemoveAll (5::int))" by simp
  have full: "TOP ?S \<le> length (ranking ?S)" by simp
  have cnt: "count_list (ranking ?S) 2 = 1" by simp
  have ins: "insert_ranker AddAfterEqual (<) 4 ?S
     = (True, \<lparr>ranking = [1, 2, 4], TOP = 3, disposed = [8, 3, 6, 5]\<rparr>)" by code_simp
  note t = disposal_completeness[OF r bv, where x = "RemoveAll 5" and s' = ?S' and element = 4 and h = 2]
  have c1: "mset (concat (map entering ?ops)) = mset (ranking ?S) + mset (disposed ?S)"
    using t by blast
  have c2: "distinct (disposed ?S)" and c3: "set (disposed ?S) \<inter> set (ranking ?S) = {}"
    using t dst by blast+
  have c4: "\<exists>d. disposed ?S' = disposed ?S @ d \<and>
        mset (ranking ?S) + mset (entering (RemoveAll 5)) = mset (ranking ?S') + mset d"
    using t bx st by blast
  have c5: "disposed (snd (insert_ranker AddAfterEqual (<) 4 ?S))
     = disposed ?S @ [last (list_insert (insert_position AddAfterEqual (<) (ranking ?S) 4) 4 (ranking ?S))]"
    using t full by blast
  have c6: "remove_all_ptr 2 ?S
     = ?S\<lparr>ranking := remove1 2 (ranking ?S), disposed := disposed ?S @ [2]\<rparr>"
    using t cnt by blast
  have c7: "disposed (destroy ?S) = disposed ?S @ ranking ?S"
    using t by blast
  then have c7': "disposed (destroy ?S) = [8, 3, 6, 1, 2, 5]" by simp
  show ?thesis
    using r bv dst c1 c2 c3 st c4 ins c5 cnt c6 c7' by (intro conjI)
qed

text \<open>
  C6. The claim: every element that leaves the ranking, by eviction, by explicit removal or
  by \<^verbatim>\<open>clear\<close>, is disposed exactly once, and no disposal is made on an element that is
  held. The operations taking their argument by value keep this account
  (\<open>disposal_completeness\<close>); \<^verbatim>\<open>remove_all(T*)\<close> does not, since it disposes its argument
  once and unconditionally. After inserting 4 twice, \<^verbatim>\<open>remove_all(T*)\<close> of 4 removes two
  elements and disposes one, where \<^verbatim>\<open>remove_all(const T&)\<close> disposes both. With 9
  inserted into a full ranking of capacity 1 holding 4, the 9 is evicted and disposed, and
  \<^verbatim>\<open>remove_all(T*)\<close> of 9 disposes it a second time although it is no longer held. With
  only 1 held, \<^verbatim>\<open>remove_all(T*)\<close> of 2 disposes an element that never entered.
\<close>

theorem disposal_identity_overload_runs:
  "run AddAfterEqual (<) [Insert 4, Insert 4, RemoveAllPtr (4::int)] (Ranker 3)
     = Inr \<lparr>ranking = [], TOP = 3, disposed = [4]\<rparr> \<and>
   run AddAfterEqual (<) [Insert 4, Insert 4, RemoveAll (4::int)] (Ranker 3)
     = Inr \<lparr>ranking = [], TOP = 3, disposed = [4, 4]\<rparr> \<and>
   run AddAfterEqual (<) [Insert 4, Insert 9, RemoveAllPtr (9::int)] (Ranker 1)
     = Inr \<lparr>ranking = [4], TOP = 1, disposed = [9, 9]\<rparr> \<and>
   run AddAfterEqual (<) [Insert 1, RemoveAllPtr (2::int)] (Ranker 3)
     = Inr \<lparr>ranking = [1], TOP = 3, disposed = [2]\<rparr>"
  by code_simp

section \<open>Tie-break order (C5)\<close>

lemma insert_all_snoc:
  "insert_all behavior cmp (es @ [e]) s = snd (insert_ranker behavior cmp e (insert_all behavior cmp es s))"
  by (induction es arbitrary: s) simp_all

lemma lower_bound_none_less: "\<forall>x\<in>set xs. \<not> cmp x e \<Longrightarrow> lower_bound cmp xs e = 0"
  unfolding lower_bound_def
  by (rule bound_search_partition) simp_all

lemma upper_bound_none_greater: "\<forall>x\<in>set xs. \<not> cmp e x \<Longrightarrow> upper_bound cmp xs e = length xs"
  unfolding upper_bound_def
  by (rule bound_search_partition) simp_all

lemma list_insert_0: "list_insert 0 x xs = x # xs"
  unfolding list_insert_def by simp

lemma TOP_insert_all: "TOP (insert_all behavior cmp es s) = TOP s"
  by (induction es arbitrary: s) (simp_all add: TOP_insert_ranker)

lemma ranked_insert_all:
  "strict_weak_order cmp \<Longrightarrow> ranked cmp (ranking s) \<Longrightarrow>
   ranked cmp (ranking (insert_all behavior cmp es s))"
  by (induction es arbitrary: s) (simp_all add: ranked_insert_ranker)

lemma equal_inserts_after:
  "\<forall>x\<in>set es. \<forall>y\<in>set es. \<not> cmp x y \<Longrightarrow>
   ranking (insert_all AddAfterEqual cmp es (Ranker C)) = take C es"
proof (induction es rule: rev_induct)
  case Nil
  show ?case by (simp add: Ranker_simps)
next
  case (snoc e es)
  let ?s = "insert_all AddAfterEqual cmp es (Ranker C)"
  have r: "ranking ?s = take C es" using snoc by simp
  have top: "TOP ?s = C" by (simp add: TOP_insert_all Ranker_simps)
  have "\<forall>x\<in>set (take C es). \<not> cmp e x"
    using snoc.prems by (auto dest: in_set_takeD)
  then have pos: "insert_position AddAfterEqual cmp (take C es) e = length (take C es)"
    by (simp add: insert_position_upper upper_bound_none_greater)
  show ?case
  proof (cases "length es < C")
    case True
    then show ?thesis
      unfolding insert_all_snoc ranking_insert_ranker r top pos list_insert_end by simp
  next
    case False
    then show ?thesis
      unfolding insert_all_snoc ranking_insert_ranker r top pos list_insert_end by simp
  qed
qed

lemma equal_inserts_before:
  "\<forall>x\<in>set es. \<forall>y\<in>set es. \<not> cmp x y \<Longrightarrow>
   ranking (insert_all AddBeforeEqual cmp es (Ranker C)) = take C (rev es)"
proof (induction es rule: rev_induct)
  case Nil
  show ?case by (simp add: Ranker_simps)
next
  case (snoc e es)
  let ?s = "insert_all AddBeforeEqual cmp es (Ranker C)"
  have r: "ranking ?s = take C (rev es)" using snoc by simp
  have top: "TOP ?s = C" by (simp add: TOP_insert_all Ranker_simps)
  have "\<forall>x\<in>set (take C (rev es)). \<not> cmp x e"
    using snoc.prems by (auto dest: in_set_takeD)
  then have pos: "insert_position AddBeforeEqual cmp (take C (rev es)) e = 0"
    by (simp add: insert_position_lower lower_bound_none_less)
  show ?case
  proof (cases "length es < C")
    case True
    then show ?thesis
      unfolding insert_all_snoc ranking_insert_ranker r top pos list_insert_0 by simp
  next
    case False
    then have len: "length (take C (rev es)) = C" by simp
    have "butlast (e # take C (rev es)) = take C (e # take C (rev es))"
      unfolding butlast_conv_take using len by simp
    also have "\<dots> = take C (e # rev es)"
      by (cases C) simp_all
    finally show ?thesis
      unfolding insert_all_snoc ranking_insert_ranker r top pos list_insert_0
      using False by simp
  qed
qed

lemma equiv_under_excl:
  assumes "strict_weak_order cmp" "equiv_under cmp v e" "cmp e y \<or> cmp y e"
  shows "\<not> equiv_under cmp v y"
proof
  assume "equiv_under cmp v y"
  moreover have "equiv_under cmp e v" using assms(2) unfolding equiv_under_def by simp
  ultimately have "equiv_under cmp e y"
    using assms(1) unfolding strict_weak_order_def by blast
  then show False using assms(3) unfolding equiv_under_def by simp
qed

lemma list_insert_upper_split:
  assumes swo: "strict_weak_order cmp" and r: "ranked cmp xs"
  shows "list_insert (insert_position AddAfterEqual cmp xs e) e xs
           = takeWhile (\<lambda>x. \<not> cmp e x) xs @ e # dropWhile (\<lambda>x. \<not> cmp e x) xs \<and>
         (\<forall>x\<in>set (takeWhile (\<lambda>x. \<not> cmp e x) xs). \<not> cmp e x) \<and>
         (\<forall>x\<in>set (dropWhile (\<lambda>x. \<not> cmp e x) xs). cmp e x)"
proof -
  have a: "list_insert (insert_position AddAfterEqual cmp xs e) e xs
           = takeWhile (\<lambda>x. \<not> cmp e x) xs @ e # dropWhile (\<lambda>x. \<not> cmp e x) xs"
    unfolding insert_position_upper upper_bound_ranked[OF swo r] list_insert_takeWhile ..
  have b: "\<forall>x\<in>set (takeWhile (\<lambda>x. \<not> cmp e x) xs). \<not> cmp e x"
    by (auto dest: set_takeWhileD)
  have c: "\<forall>x\<in>set (dropWhile (\<lambda>x. \<not> cmp e x) xs). cmp e x"
    using dropWhile_all_fail[OF upper_pred_closed[OF swo r], of e] by blast
  show ?thesis using a b c by (intro conjI)
qed

lemma list_insert_lower_split:
  assumes swo: "strict_weak_order cmp" and r: "ranked cmp xs"
  shows "list_insert (insert_position AddBeforeEqual cmp xs e) e xs
           = takeWhile (\<lambda>x. cmp x e) xs @ e # dropWhile (\<lambda>x. cmp x e) xs \<and>
         (\<forall>x\<in>set (takeWhile (\<lambda>x. cmp x e) xs). cmp x e) \<and>
         (\<forall>x\<in>set (dropWhile (\<lambda>x. cmp x e) xs). \<not> cmp x e)"
proof -
  have a: "list_insert (insert_position AddBeforeEqual cmp xs e) e xs
           = takeWhile (\<lambda>x. cmp x e) xs @ e # dropWhile (\<lambda>x. cmp x e) xs"
    unfolding insert_position_lower lower_bound_ranked[OF swo r] list_insert_takeWhile ..
  have b: "\<forall>x\<in>set (takeWhile (\<lambda>x. cmp x e) xs). cmp x e"
    by (auto dest: set_takeWhileD)
  have c: "\<forall>x\<in>set (dropWhile (\<lambda>x. cmp x e) xs). \<not> cmp x e"
    using dropWhile_all_fail[OF lower_pred_closed[OF swo r], of e] by blast
  show ?thesis using a b c by (intro conjI)
qed

lemma filter_empty_if: "\<forall>x\<in>set xs. \<not> Q x \<Longrightarrow> filter Q xs = []"
  by (induction xs) auto

lemma filter_takeWhile_dropWhile:
  "filter Q xs = filter Q (takeWhile P xs) @ filter Q (dropWhile P xs)"
proof -
  have "filter Q xs = filter Q (takeWhile P xs @ dropWhile P xs)" by simp
  then show ?thesis by (simp only: filter_append)
qed

lemma filter_equiv_insert_after:
  assumes swo: "strict_weak_order cmp" and r: "ranked cmp xs"
  shows "filter (equiv_under cmp v) (list_insert (insert_position AddAfterEqual cmp xs e) e xs)
           = filter (equiv_under cmp v) xs @ filter (equiv_under cmp v) [e]"
proof -
  let ?Q = "equiv_under cmp v"
  let ?tw = "takeWhile (\<lambda>x. \<not> cmp e x) xs" and ?dw = "dropWhile (\<lambda>x. \<not> cmp e x) xs"
  have sp: "list_insert (insert_position AddAfterEqual cmp xs e) e xs = ?tw @ e # ?dw"
    using list_insert_upper_split[OF swo r, of e] by (rule conjunct1)
  have gt: "\<forall>x\<in>set ?dw. cmp e x"
    using list_insert_upper_split[OF swo r, of e] by (rule conjunct2[THEN conjunct2])
  have whole: "filter ?Q xs = filter ?Q ?tw @ filter ?Q ?dw"
    by (rule filter_takeWhile_dropWhile)
  have parts: "filter ?Q (?tw @ e # ?dw) = filter ?Q ?tw @ filter ?Q [e] @ filter ?Q ?dw"
    by (simp only: filter_append filter.simps append_Cons append_Nil split: if_splits) simp
  show ?thesis
  proof (cases "?Q e")
    case True
    have "\<forall>x\<in>set ?dw. \<not> ?Q x"
    proof
      fix x assume "x \<in> set ?dw"
      then have "cmp e x" using gt by (rule bspec[rotated])
      then show "\<not> ?Q x" using equiv_under_excl[OF swo True] by blast
    qed
    then have dw: "filter ?Q ?dw = []" by (rule filter_empty_if)
    show ?thesis unfolding sp parts whole dw by (simp only: append_Nil2 append_assoc)
  next
    case False
    then have e: "filter ?Q [e] = []" by simp
    show ?thesis unfolding sp parts whole e by (simp only: append_Nil2 append_Nil)
  qed
qed

lemma filter_equiv_insert_before:
  assumes swo: "strict_weak_order cmp" and r: "ranked cmp xs"
  shows "filter (equiv_under cmp v) (list_insert (insert_position AddBeforeEqual cmp xs e) e xs)
           = filter (equiv_under cmp v) [e] @ filter (equiv_under cmp v) xs"
proof -
  let ?Q = "equiv_under cmp v"
  let ?tw = "takeWhile (\<lambda>x. cmp x e) xs" and ?dw = "dropWhile (\<lambda>x. cmp x e) xs"
  have sp: "list_insert (insert_position AddBeforeEqual cmp xs e) e xs = ?tw @ e # ?dw"
    using list_insert_lower_split[OF swo r, of e] by (rule conjunct1)
  have lt: "\<forall>x\<in>set ?tw. cmp x e"
    using list_insert_lower_split[OF swo r, of e] by (rule conjunct2[THEN conjunct1])
  have whole: "filter ?Q xs = filter ?Q ?tw @ filter ?Q ?dw"
    by (rule filter_takeWhile_dropWhile)
  have parts: "filter ?Q (?tw @ e # ?dw) = filter ?Q ?tw @ filter ?Q [e] @ filter ?Q ?dw"
    by (simp only: filter_append filter.simps append_Cons append_Nil split: if_splits) simp
  show ?thesis
  proof (cases "?Q e")
    case True
    have "\<forall>x\<in>set ?tw. \<not> ?Q x"
    proof
      fix x assume "x \<in> set ?tw"
      then have "cmp x e" using lt by (rule bspec[rotated])
      then show "\<not> ?Q x" using equiv_under_excl[OF swo True] by blast
    qed
    then have tw: "filter ?Q ?tw = []" by (rule filter_empty_if)
    show ?thesis unfolding sp parts whole tw by (simp only: append_Nil)
  next
    case False
    then have e: "filter ?Q [e] = []" by simp
    show ?thesis unfolding sp parts whole e by (simp only: append_Nil)
  qed
qed

lemma subseq_filter_ranking_insert:
  "subseq (filter Q (ranking (snd (insert_ranker behavior cmp e s))))
          (filter Q (list_insert (insert_position behavior cmp (ranking s) e) e (ranking s)))"
proof -
  let ?ins = "list_insert (insert_position behavior cmp (ranking s) e) e (ranking s)"
  have "subseq (butlast ?ins) ?ins" using prefixeq_butlast by (rule prefix_imp_subseq)
  then have "subseq (filter Q (butlast ?ins)) (filter Q ?ins)" by (rule subseq_filter)
  then show ?thesis unfolding ranking_insert_ranker by simp
qed

lemma subseq_equiv_after:
  assumes swo: "strict_weak_order cmp"
  shows "ranked cmp (ranking s) \<Longrightarrow>
         subseq (filter (equiv_under cmp v) (ranking (insert_all AddAfterEqual cmp es s)))
                (filter (equiv_under cmp v) (ranking s) @ filter (equiv_under cmp v) es)"
proof (induction es arbitrary: s)
  case Nil
  show ?case by simp
next
  case (Cons e es)
  let ?Q = "equiv_under cmp v"
  let ?s1 = "snd (insert_ranker AddAfterEqual cmp e s)"
  have r1: "ranked cmp (ranking ?s1)" using ranked_insert_ranker[OF swo Cons.prems] .
  have step: "subseq (filter ?Q (ranking ?s1)) (filter ?Q (ranking s) @ filter ?Q [e])"
    using subseq_filter_ranking_insert[of ?Q AddAfterEqual cmp e s]
    unfolding filter_equiv_insert_after[OF swo Cons.prems] .
  have "subseq (filter ?Q (ranking (insert_all AddAfterEqual cmp es ?s1)))
               (filter ?Q (ranking ?s1) @ filter ?Q es)"
    using Cons.IH[OF r1] .
  moreover have "subseq (filter ?Q (ranking ?s1) @ filter ?Q es)
                        ((filter ?Q (ranking s) @ filter ?Q [e]) @ filter ?Q es)"
    using step by (simp only: subseq_append)
  ultimately have "subseq (filter ?Q (ranking (insert_all AddAfterEqual cmp es ?s1)))
                          ((filter ?Q (ranking s) @ filter ?Q [e]) @ filter ?Q es)"
    by (rule subseq_order.trans)
  then show ?case by (auto split: if_splits)
qed

lemma subseq_equiv_before:
  assumes swo: "strict_weak_order cmp"
  shows "ranked cmp (ranking s) \<Longrightarrow>
         subseq (filter (equiv_under cmp v) (ranking (insert_all AddBeforeEqual cmp es s)))
                (rev (filter (equiv_under cmp v) es) @ filter (equiv_under cmp v) (ranking s))"
proof (induction es arbitrary: s)
  case Nil
  show ?case by simp
next
  case (Cons e es)
  let ?Q = "equiv_under cmp v"
  let ?s1 = "snd (insert_ranker AddBeforeEqual cmp e s)"
  have r1: "ranked cmp (ranking ?s1)" using ranked_insert_ranker[OF swo Cons.prems] .
  have step: "subseq (filter ?Q (ranking ?s1)) (filter ?Q [e] @ filter ?Q (ranking s))"
    using subseq_filter_ranking_insert[of ?Q AddBeforeEqual cmp e s]
    unfolding filter_equiv_insert_before[OF swo Cons.prems] .
  have "subseq (filter ?Q (ranking (insert_all AddBeforeEqual cmp es ?s1)))
               (rev (filter ?Q es) @ filter ?Q (ranking ?s1))"
    using Cons.IH[OF r1] .
  moreover have "subseq (rev (filter ?Q es) @ filter ?Q (ranking ?s1))
                        (rev (filter ?Q es) @ (filter ?Q [e] @ filter ?Q (ranking s)))"
    using step by (simp only: subseq_append')
  ultimately have "subseq (filter ?Q (ranking (insert_all AddBeforeEqual cmp es ?s1)))
                          (rev (filter ?Q es) @ (filter ?Q [e] @ filter ?Q (ranking s)))"
    by (rule subseq_order.trans)
  then show ?case by (auto split: if_splits)
qed

lemma ranked_dropWhile: "ranked cmp xs \<Longrightarrow> ranked cmp (dropWhile P xs)"
  unfolding ranked_def dropWhile_eq_drop by (rule sorted_wrt_drop)

lemma equals_contiguous:
  assumes swo: "strict_weak_order cmp" and r: "ranked cmp xs"
  shows "\<exists>above below.
           xs = above @ filter (equiv_under cmp v) xs @ below \<and>
           (\<forall>x\<in>set above. cmp x v) \<and> (\<forall>x\<in>set below. cmp v x)"
proof -
  let ?Q = "equiv_under cmp v"
  let ?above = "takeWhile (\<lambda>x. cmp x v) xs" and ?rest = "dropWhile (\<lambda>x. cmp x v) xs"
  let ?mid = "takeWhile (\<lambda>x. \<not> cmp v x) ?rest" and ?below = "dropWhile (\<lambda>x. \<not> cmp v x) ?rest"
  have rr: "ranked cmp ?rest" using ranked_dropWhile[OF r] .
  have a: "\<forall>x\<in>set ?above. cmp x v" by (auto dest: set_takeWhileD)
  have nr: "\<forall>x\<in>set ?rest. \<not> cmp x v"
    using dropWhile_all_fail[OF lower_pred_closed[OF swo r], of v] .
  have b: "\<forall>x\<in>set ?below. cmp v x"
    using dropWhile_all_fail[OF upper_pred_closed[OF swo rr], of v] by blast
  have sub: "set ?mid \<subseteq> set ?rest" by (auto dest: set_takeWhileD)
  have m: "\<forall>x\<in>set ?mid. ?Q x"
  proof
    fix x assume x: "x \<in> set ?mid"
    then have "\<not> cmp v x" by (rule set_takeWhileD[THEN conjunct2])
    moreover have "\<not> cmp x v" using x sub nr by blast
    ultimately show "?Q x" unfolding equiv_under_def by simp
  qed
  have fa: "filter ?Q ?above = []"
  proof (rule filter_empty_if, rule ballI)
    fix x assume "x \<in> set ?above"
    then have "cmp x v" using a by blast
    then show "\<not> ?Q x" unfolding equiv_under_def by simp
  qed
  have fb: "filter ?Q ?below = []"
  proof (rule filter_empty_if, rule ballI)
    fix x assume "x \<in> set ?below"
    then have "cmp v x" using b by blast
    then show "\<not> ?Q x" unfolding equiv_under_def by simp
  qed
  have fm: "filter ?Q ?mid = ?mid" using m by (simp add: filter_id_conv)
  have "filter ?Q ?rest = filter ?Q ?mid @ filter ?Q ?below"
    by (rule filter_takeWhile_dropWhile)
  then have fr: "filter ?Q ?rest = ?mid" unfolding fm fb by simp
  have "filter ?Q xs = filter ?Q ?above @ filter ?Q ?rest"
    by (rule filter_takeWhile_dropWhile)
  then have fx: "filter ?Q xs = ?mid" unfolding fa fr by simp
  have "xs = ?above @ ?mid @ ?below" by simp
  then have "xs = ?above @ filter ?Q xs @ ?below" unfolding fx .
  then show ?thesis using a b by blast
qed

text \<open>
  C5. Tie-break determinism, for \<^verbatim>\<open>Comp\<close> a strict weak order and any sequence of
  insertions into a new ranking. If all inserted elements compare equal, \<^verbatim>\<open>AddAfterEqual\<close>
  retains the first \<open>C\<close> of them in insertion order and \<^verbatim>\<open>AddBeforeEqual\<close> the last \<open>C\<close>
  of them in reverse insertion order. In general, for every value \<open>v\<close>, the retained
  elements equal to \<open>v\<close> appear in insertion order with \<^verbatim>\<open>AddAfterEqual\<close> and in reverse
  insertion order with \<^verbatim>\<open>AddBeforeEqual\<close>, and they are contiguous: everything above them
  is less than \<open>v\<close>, everything below is greater. The place is fixed when the element is
  inserted into a sorted sequence: after every element that is not greater
  (\<^verbatim>\<open>AddAfterEqual\<close>), or after exactly the elements that are less (\<^verbatim>\<open>AddBeforeEqual\<close>).
\<close>

theorem tie_break_determinism:
  assumes "strict_weak_order cmp"
  shows
   "((\<forall>x\<in>set es. \<forall>y\<in>set es. equiv_under cmp x y) \<longrightarrow>
       ranking (insert_all AddAfterEqual cmp es (Ranker C)) = take C es \<and>
       ranking (insert_all AddBeforeEqual cmp es (Ranker C)) = take C (rev es)) \<and>
    subseq (filter (equiv_under cmp v) (ranking (insert_all AddAfterEqual cmp es (Ranker C))))
           (filter (equiv_under cmp v) es) \<and>
    subseq (filter (equiv_under cmp v) (ranking (insert_all AddBeforeEqual cmp es (Ranker C))))
           (rev (filter (equiv_under cmp v) es)) \<and>
    (\<exists>above below.
       ranking (insert_all behavior cmp es (Ranker C))
         = above @ filter (equiv_under cmp v) (ranking (insert_all behavior cmp es (Ranker C))) @ below \<and>
       (\<forall>x\<in>set above. cmp x v) \<and> (\<forall>x\<in>set below. cmp v x)) \<and>
    (ranked cmp xs \<longrightarrow>
       list_insert (insert_position AddAfterEqual cmp xs e) e xs
         = takeWhile (\<lambda>x. \<not> cmp e x) xs @ e # dropWhile (\<lambda>x. \<not> cmp e x) xs \<and>
       (\<forall>x\<in>set (dropWhile (\<lambda>x. \<not> cmp e x) xs). cmp e x) \<and>
       list_insert (insert_position AddBeforeEqual cmp xs e) e xs
         = takeWhile (\<lambda>x. cmp x e) xs @ e # dropWhile (\<lambda>x. cmp x e) xs \<and>
       (\<forall>x\<in>set (dropWhile (\<lambda>x. cmp x e) xs). \<not> cmp x e))"
proof -
  have rk: "ranked cmp (ranking (Ranker C :: 'a ranker))" by (simp add: Ranker_simps ranked_Nil)
  have p1: "(\<forall>x\<in>set es. \<forall>y\<in>set es. equiv_under cmp x y) \<longrightarrow>
       ranking (insert_all AddAfterEqual cmp es (Ranker C)) = take C es \<and>
       ranking (insert_all AddBeforeEqual cmp es (Ranker C)) = take C (rev es)"
  proof
    assume "\<forall>x\<in>set es. \<forall>y\<in>set es. equiv_under cmp x y"
    then have ne: "\<forall>x\<in>set es. \<forall>y\<in>set es. \<not> cmp x y"
      unfolding equiv_under_def by blast
    show "ranking (insert_all AddAfterEqual cmp es (Ranker C)) = take C es \<and>
       ranking (insert_all AddBeforeEqual cmp es (Ranker C)) = take C (rev es)"
      using equal_inserts_after[OF ne] equal_inserts_before[OF ne] by (rule conjI)
  qed
  have p2: "subseq (filter (equiv_under cmp v) (ranking (insert_all AddAfterEqual cmp es (Ranker C))))
           (filter (equiv_under cmp v) es)"
    using subseq_equiv_after[OF assms rk, of v es] by (simp add: Ranker_simps)
  have p3: "subseq (filter (equiv_under cmp v) (ranking (insert_all AddBeforeEqual cmp es (Ranker C))))
           (rev (filter (equiv_under cmp v) es))"
    using subseq_equiv_before[OF assms rk, of v es] by (simp add: Ranker_simps)
  have p4: "\<exists>above below.
       ranking (insert_all behavior cmp es (Ranker C))
         = above @ filter (equiv_under cmp v) (ranking (insert_all behavior cmp es (Ranker C))) @ below \<and>
       (\<forall>x\<in>set above. cmp x v) \<and> (\<forall>x\<in>set below. cmp v x)"
    by (rule equals_contiguous[OF assms ranked_insert_all[OF assms rk]])
  have p5: "ranked cmp xs \<longrightarrow>
       list_insert (insert_position AddAfterEqual cmp xs e) e xs
         = takeWhile (\<lambda>x. \<not> cmp e x) xs @ e # dropWhile (\<lambda>x. \<not> cmp e x) xs \<and>
       (\<forall>x\<in>set (dropWhile (\<lambda>x. \<not> cmp e x) xs). cmp e x) \<and>
       list_insert (insert_position AddBeforeEqual cmp xs e) e xs
         = takeWhile (\<lambda>x. cmp x e) xs @ e # dropWhile (\<lambda>x. cmp x e) xs \<and>
       (\<forall>x\<in>set (dropWhile (\<lambda>x. cmp x e) xs). \<not> cmp x e)"
  proof
    assume r: "ranked cmp xs"
    show "list_insert (insert_position AddAfterEqual cmp xs e) e xs
         = takeWhile (\<lambda>x. \<not> cmp e x) xs @ e # dropWhile (\<lambda>x. \<not> cmp e x) xs \<and>
       (\<forall>x\<in>set (dropWhile (\<lambda>x. \<not> cmp e x) xs). cmp e x) \<and>
       list_insert (insert_position AddBeforeEqual cmp xs e) e xs
         = takeWhile (\<lambda>x. cmp x e) xs @ e # dropWhile (\<lambda>x. cmp x e) xs \<and>
       (\<forall>x\<in>set (dropWhile (\<lambda>x. cmp x e) xs). \<not> cmp x e)"
      using list_insert_upper_split[OF assms r, of e] list_insert_lower_split[OF assms r, of e]
      by blast
  qed
  show ?thesis using p1 p2 p3 p4 p5 by (intro conjI)
qed

theorem tie_break_determinism_witness:
  "strict_weak_order (\<lambda>(a :: int \<times> nat) (b :: int \<times> nat). fst a < fst b) \<and>
   ranking (insert_all AddAfterEqual (\<lambda>a b. fst a < fst b) [(4, 1), (4, 2), (4::int, 3::nat)] (Ranker 2))
     = [(4, 1), (4, 2)] \<and>
   ranking (insert_all AddBeforeEqual (\<lambda>a b. fst a < fst b) [(4, 1), (4, 2), (4::int, 3::nat)] (Ranker 2))
     = [(4, 3), (4, 2)] \<and>
   ranked (\<lambda>a b. fst a < fst b) [(1, 4), (4, 1), (4::int, 3::nat)] \<and>
   list_insert (insert_position AddAfterEqual (\<lambda>a b. fst a < fst b) [(1, 4), (4, 1), (4::int, 3::nat)] (4, 5))
       (4::int, 5::nat) [(1, 4), (4, 1), (4, 3)]
     = [(1, 4), (4, 1), (4, 3), (4, 5)] \<and>
   list_insert (insert_position AddBeforeEqual (\<lambda>a b. fst a < fst b) [(1, 4), (4, 1), (4::int, 3::nat)] (4, 5))
       (4::int, 5::nat) [(1, 4), (4, 1), (4, 3)]
     = [(1, 4), (4, 5), (4, 1), (4, 3)]"
proof -
  let ?cmp = "\<lambda>(a :: int \<times> nat) (b :: int \<times> nat). fst a < fst b"
  let ?es = "[(4, 1), (4, 2), (4::int, 3::nat)]"
  let ?xs = "[(1, 4), (4, 1), (4::int, 3::nat)]"
  have swo: "strict_weak_order ?cmp" by (rule strict_weak_order_key)
  have eq: "\<forall>x\<in>set ?es. \<forall>y\<in>set ?es. equiv_under ?cmp x y"
    by (simp add: equiv_under_def)
  have rk: "ranked ?cmp ?xs" by (simp add: ranked_def)
  note t = tie_break_determinism[OF swo, where es = ?es and C = 2 and xs = ?xs and e = "(4, 5)"]
  have a: "ranking (insert_all AddAfterEqual ?cmp ?es (Ranker 2)) = take 2 ?es"
    and b: "ranking (insert_all AddBeforeEqual ?cmp ?es (Ranker 2)) = take 2 (rev ?es)"
    using t[THEN conjunct1, THEN mp, OF eq] by (rule conjunct1, rule conjunct2)
  have c: "list_insert (insert_position AddAfterEqual ?cmp ?xs (4, 5)) (4, 5) ?xs
         = takeWhile (\<lambda>x. \<not> ?cmp (4, 5) x) ?xs @ (4, 5) # dropWhile (\<lambda>x. \<not> ?cmp (4, 5) x) ?xs"
    and d: "list_insert (insert_position AddBeforeEqual ?cmp ?xs (4, 5)) (4, 5) ?xs
         = takeWhile (\<lambda>x. ?cmp x (4, 5)) ?xs @ (4, 5) # dropWhile (\<lambda>x. ?cmp x (4, 5)) ?xs"
    using t[THEN conjunct2, THEN conjunct2, THEN conjunct2, THEN conjunct2, THEN mp, OF rk]
    by (rule conjunct1, rule conjunct2[THEN conjunct2, THEN conjunct1])
  have a': "ranking (insert_all AddAfterEqual ?cmp ?es (Ranker 2)) = [(4, 1), (4, 2)]"
    unfolding a by simp
  have b': "ranking (insert_all AddBeforeEqual ?cmp ?es (Ranker 2)) = [(4, 3), (4, 2)]"
    unfolding b by simp
  have c': "list_insert (insert_position AddAfterEqual ?cmp ?xs (4, 5)) (4, 5) ?xs
         = [(1, 4), (4, 1), (4, 3), (4, 5)]"
    unfolding c by simp
  have d': "list_insert (insert_position AddBeforeEqual ?cmp ?xs (4, 5)) (4, 5) ?xs
         = [(1, 4), (4, 5), (4, 1), (4, 3)]"
    unfolding d by simp
  show ?thesis using swo a' b' rk c' d' by (intro conjI)
qed

section \<open>The result of insert (C1)\<close>

lemma length_takeWhile_all: "(length (takeWhile P xs) = length xs) = (\<forall>x\<in>set xs. P x)"
proof (induction xs)
  case Nil
  show ?case by simp
next
  case (Cons x xs)
  show ?case using Cons length_takeWhile_le[of P xs] by auto
qed

lemma ranked_last:
  assumes swo: "strict_weak_order cmp" and r: "ranked cmp xs" and x: "x \<in> set xs"
  shows "\<not> cmp (last xs) x"
proof -
  have ne: "xs \<noteq> []" using x by auto
  then have "xs = butlast xs @ [last xs]" by simp
  then have "sorted_wrt (\<lambda>x y. \<not> cmp y x) (butlast xs @ [last xs])"
    using r unfolding ranked_def by simp
  then have b: "\<forall>y\<in>set (butlast xs). \<not> cmp (last xs) y"
    unfolding sorted_wrt_append by simp
  have "x \<in> set (butlast xs) \<or> x = last xs"
    using x ne by (metis append_butlast_last_id in_set_conv_decomp rotate1.simps(2) set_ConsD set_rotate1)
  then show ?thesis
  proof
    assume "x \<in> set (butlast xs)"
    then show ?thesis using b by blast
  next
    assume "x = last xs"
    then show ?thesis using swo unfolding strict_weak_order_def by simp
  qed
qed

lemma insert_at_end_after:
  assumes swo: "strict_weak_order cmp" and r: "ranked cmp xs" and ne: "xs \<noteq> []"
  shows "(insert_position AddAfterEqual cmp xs e = length xs) = (\<not> cmp e (last xs))"
proof -
  have "(insert_position AddAfterEqual cmp xs e = length xs) = (\<forall>x\<in>set xs. \<not> cmp e x)"
    unfolding insert_position_upper upper_bound_ranked[OF swo r] by (rule length_takeWhile_all)
  also have "\<dots> = (\<not> cmp e (last xs))"
  proof
    assume "\<forall>x\<in>set xs. \<not> cmp e x"
    then show "\<not> cmp e (last xs)" using ne by simp
  next
    assume l: "\<not> cmp e (last xs)"
    show "\<forall>x\<in>set xs. \<not> cmp e x"
    proof
      fix x assume "x \<in> set xs"
      then have "\<not> cmp (last xs) x" by (rule ranked_last[OF swo r])
      then show "\<not> cmp e x" using swo_negtrans[OF swo l] by blast
    qed
  qed
  finally show ?thesis .
qed

lemma insert_at_end_before:
  assumes swo: "strict_weak_order cmp" and r: "ranked cmp xs" and ne: "xs \<noteq> []"
  shows "(insert_position AddBeforeEqual cmp xs e = length xs) = cmp (last xs) e"
proof -
  have "(insert_position AddBeforeEqual cmp xs e = length xs) = (\<forall>x\<in>set xs. cmp x e)"
    unfolding insert_position_lower lower_bound_ranked[OF swo r] by (rule length_takeWhile_all)
  also have "\<dots> = cmp (last xs) e"
  proof
    assume "\<forall>x\<in>set xs. cmp x e"
    then show "cmp (last xs) e" using ne by simp
  next
    assume l: "cmp (last xs) e"
    show "\<forall>x\<in>set xs. cmp x e"
    proof
      fix x assume "x \<in> set xs"
      then have n: "\<not> cmp (last xs) x" by (rule ranked_last[OF swo r])
      show "cmp x e"
      proof (rule ccontr)
        assume "\<not> cmp x e"
        then have "\<not> cmp (last xs) e" using swo_negtrans[OF swo n] by blast
        then show False using l by simp
      qed
    qed
  qed
  finally show ?thesis .
qed

lemma insert_survives_position:
  "fst (insert_ranker behavior cmp element s) =
     (insert_position behavior cmp (ranking s) element
        < length (ranking (snd (insert_ranker behavior cmp element s))))"
  using insert_position_le[of behavior cmp "ranking s" element]
  unfolding fst_insert_ranker ranking_insert_ranker
  by (auto simp: length_list_insert)

lemma insert_survivor_nth:
  assumes "fst (insert_ranker behavior cmp element s)"
  shows "ranking (snd (insert_ranker behavior cmp element s))
           ! insert_position behavior cmp (ranking s) element = element"
proof -
  let ?pos = "insert_position behavior cmp (ranking s) element"
  let ?ins = "list_insert ?pos element (ranking s)"
  have le: "?pos \<le> length (ranking s)" by (rule insert_position_le)
  have n: "?ins ! ?pos = element" using nth_list_insert[OF le] .
  show ?thesis
  proof (cases "TOP s \<le> length (ranking s)")
    case True
    then have "?pos \<noteq> length (ranking s)" using assms unfolding fst_insert_ranker by simp
    then have "?pos < length (butlast ?ins)" using le by (simp add: length_list_insert)
    then have "butlast ?ins ! ?pos = ?ins ! ?pos" by (rule nth_butlast)
    then show ?thesis using True n by (simp add: ranking_insert_ranker)
  next
    case False
    then show ?thesis using n by (simp add: ranking_insert_ranker)
  qed
qed

lemma insert_survives_fresh:
  assumes "element \<notin> set (ranking s)"
  shows "fst (insert_ranker behavior cmp element s) =
           (element \<in> set (ranking (snd (insert_ranker behavior cmp element s))))"
proof
  assume ok: "fst (insert_ranker behavior cmp element s)"
  have "insert_position behavior cmp (ranking s) element
          < length (ranking (snd (insert_ranker behavior cmp element s)))"
    using ok insert_survives_position[of behavior cmp element s] by simp
  then have "ranking (snd (insert_ranker behavior cmp element s))
               ! insert_position behavior cmp (ranking s) element
             \<in> set (ranking (snd (insert_ranker behavior cmp element s)))"
    by (rule nth_mem)
  then show "element \<in> set (ranking (snd (insert_ranker behavior cmp element s)))"
    using insert_survivor_nth[OF ok] by simp
next
  assume m: "element \<in> set (ranking (snd (insert_ranker behavior cmp element s)))"
  show "fst (insert_ranker behavior cmp element s)"
  proof (rule ccontr)
    assume "\<not> fst (insert_ranker behavior cmp element s)"
    then have "TOP s \<le> length (ranking s)"
      and "insert_position behavior cmp (ranking s) element = length (ranking s)"
      unfolding insert_ranker_false_iff by simp_all
    then have "ranking (snd (insert_ranker behavior cmp element s)) = ranking s"
      by (simp add: ranking_insert_ranker list_insert_end)
    then show False using m assms by simp
  qed
qed

text \<open>
  C1. The result of \<^verbatim>\<open>insert(element)\<close>. The call returns true if and only if the element
  just inserted is still in the sequence when the call returns: it keeps the position it
  was inserted at, and, when no equal value was held before, \<open>element\<close> is a member of the
  final sequence exactly when the result is true. The call returns false exactly when the
  ranking had reached its capacity before the call and the element was placed at the tail,
  so that it is the one evicted and disposed. On a sorted, non-empty ranking the element is
  placed at the tail exactly when it sorts at or below the bottom under the tie-break rule:
  not before the bottom with \<^verbatim>\<open>AddAfterEqual\<close>, strictly after it with \<^verbatim>\<open>AddBeforeEqual\<close>.
  Below capacity the call returns true. With capacity zero (where the ranking is empty)
  every call returns false and disposes the element at once.
\<close>

theorem insert_result:
  "(fst (insert_ranker behavior cmp element s) =
      (insert_position behavior cmp (ranking s) element
         < length (ranking (snd (insert_ranker behavior cmp element s))))) \<and>
   (fst (insert_ranker behavior cmp element s) \<longrightarrow>
      ranking (snd (insert_ranker behavior cmp element s))
        ! insert_position behavior cmp (ranking s) element = element) \<and>
   (element \<notin> set (ranking s) \<longrightarrow>
      fst (insert_ranker behavior cmp element s) =
        (element \<in> set (ranking (snd (insert_ranker behavior cmp element s))))) \<and>
   ((\<not> fst (insert_ranker behavior cmp element s)) =
      (TOP s \<le> length (ranking s) \<and>
       insert_position behavior cmp (ranking s) element = length (ranking s))) \<and>
   (\<not> fst (insert_ranker behavior cmp element s) \<longrightarrow>
      list_insert (insert_position behavior cmp (ranking s) element) element (ranking s)
        = ranking s @ [element] \<and>
      ranking (snd (insert_ranker behavior cmp element s)) = ranking s \<and>
      disposed (snd (insert_ranker behavior cmp element s)) = disposed s @ [element]) \<and>
   (strict_weak_order cmp \<and> ranked cmp (ranking s) \<and> ranking s \<noteq> [] \<longrightarrow>
      (insert_position AddAfterEqual cmp (ranking s) element = length (ranking s))
        = (\<not> cmp element (last (ranking s))) \<and>
      (insert_position AddBeforeEqual cmp (ranking s) element = length (ranking s))
        = cmp (last (ranking s)) element) \<and>
   (length (ranking s) < TOP s \<longrightarrow> fst (insert_ranker behavior cmp element s)) \<and>
   (TOP s = 0 \<and> length (ranking s) \<le> TOP s \<longrightarrow>
      \<not> fst (insert_ranker behavior cmp element s) \<and>
      ranking (snd (insert_ranker behavior cmp element s)) = [] \<and>
      disposed (snd (insert_ranker behavior cmp element s)) = disposed s @ [element])"
proof -
  let ?pos = "insert_position behavior cmp (ranking s) element"
  let ?r = "insert_ranker behavior cmp element s"
  have p1: "fst ?r = (?pos < length (ranking (snd ?r)))"
    by (rule insert_survives_position)
  have p2: "fst ?r \<longrightarrow> ranking (snd ?r) ! ?pos = element"
    using insert_survivor_nth[of behavior cmp element s] by blast
  have p3: "element \<notin> set (ranking s) \<longrightarrow> fst ?r = (element \<in> set (ranking (snd ?r)))"
    using insert_survives_fresh[of element s behavior cmp] by blast
  have p4: "(\<not> fst ?r) = (TOP s \<le> length (ranking s) \<and> ?pos = length (ranking s))"
    by (rule insert_ranker_false_iff)
  have p5: "\<not> fst ?r \<longrightarrow>
      list_insert ?pos element (ranking s) = ranking s @ [element] \<and>
      ranking (snd ?r) = ranking s \<and> disposed (snd ?r) = disposed s @ [element]"
  proof
    assume "\<not> fst ?r"
    then have full: "TOP s \<le> length (ranking s)" and tail: "?pos = length (ranking s)"
      unfolding p4 by simp_all
    show "list_insert ?pos element (ranking s) = ranking s @ [element] \<and>
      ranking (snd ?r) = ranking s \<and> disposed (snd ?r) = disposed s @ [element]"
      unfolding ranking_insert_ranker disposed_insert_ranker tail list_insert_end
      using full by simp
  qed
  have p6: "strict_weak_order cmp \<and> ranked cmp (ranking s) \<and> ranking s \<noteq> [] \<longrightarrow>
      (insert_position AddAfterEqual cmp (ranking s) element = length (ranking s))
        = (\<not> cmp element (last (ranking s))) \<and>
      (insert_position AddBeforeEqual cmp (ranking s) element = length (ranking s))
        = cmp (last (ranking s)) element"
    using insert_at_end_after[of cmp "ranking s" element]
      insert_at_end_before[of cmp "ranking s" element] by blast
  have p7: "length (ranking s) < TOP s \<longrightarrow> fst ?r"
    unfolding fst_insert_ranker by simp
  have p8: "TOP s = 0 \<and> length (ranking s) \<le> TOP s \<longrightarrow>
      \<not> fst ?r \<and> ranking (snd ?r) = [] \<and> disposed (snd ?r) = disposed s @ [element]"
  proof
    assume "TOP s = 0 \<and> length (ranking s) \<le> TOP s"
    then have t: "TOP s = 0" and e: "ranking s = []" by auto
    have "?pos \<le> length (ranking s)" by (rule insert_position_le)
    then have z: "?pos = 0" using e by simp
    show "\<not> fst ?r \<and> ranking (snd ?r) = [] \<and> disposed (snd ?r) = disposed s @ [element]"
      unfolding fst_insert_ranker ranking_insert_ranker disposed_insert_ranker z
      using t e by (simp add: list_insert_0)
  qed
  show ?thesis using p1 p2 p3 p4 p5 p6 p7 p8 by (intro conjI)
qed

theorem insert_result_witness:
  "insert_ranker AddAfterEqual (<) (10::int) (Ranker 1)
     = (True, \<lparr>ranking = [10], TOP = 1, disposed = []\<rparr>) \<and>
   insert_ranker AddAfterEqual (<) (5::int) \<lparr>ranking = [10], TOP = 1, disposed = []\<rparr>
     = (True, \<lparr>ranking = [5], TOP = 1, disposed = [10]\<rparr>) \<and>
   insert_ranker AddAfterEqual (<) (20::int) \<lparr>ranking = [5], TOP = 1, disposed = [10]\<rparr>
     = (False, \<lparr>ranking = [5], TOP = 1, disposed = [10, 20]\<rparr>) \<and>
   insert_ranker AddBeforeEqual (<) (7::int) (Ranker 0)
     = (False, \<lparr>ranking = [], TOP = 0, disposed = [7]\<rparr>) \<and>
   (5::int) \<in> set (ranking (snd (insert_ranker AddAfterEqual (<) (5::int)
                                    \<lparr>ranking = [10], TOP = 1, disposed = []\<rparr>))) \<and>
   (20::int) \<notin> set (ranking (snd (insert_ranker AddAfterEqual (<) (20::int)
                                    \<lparr>ranking = [5], TOP = 1, disposed = [10]\<rparr>))) \<and>
   (insert_position AddAfterEqual (<) (ranking \<lparr>ranking = [5::int], TOP = 1, disposed = [10]\<rparr>) 20
      = length (ranking \<lparr>ranking = [5::int], TOP = 1, disposed = [10]\<rparr>))"
proof -
  let ?s1 = "\<lparr>ranking = [10::int], TOP = 1, disposed = []\<rparr>"
  let ?s2 = "\<lparr>ranking = [5::int], TOP = 1, disposed = [10]\<rparr>"
  have e0: "insert_ranker AddAfterEqual (<) (10::int) (Ranker 1) = (True, ?s1)" by code_simp
  have e1: "insert_ranker AddAfterEqual (<) (5::int) ?s1 = (True, ?s2)" by code_simp
  have e2: "insert_ranker AddAfterEqual (<) (20::int) ?s2
     = (False, \<lparr>ranking = [5], TOP = 1, disposed = [10, 20]\<rparr>)" by code_simp
  have e3: "insert_ranker AddBeforeEqual (<) (7::int) (Ranker 0)
     = (False, \<lparr>ranking = [], TOP = 0, disposed = [7]\<rparr>)" by code_simp
  have f1: "(5::int) \<notin> set (ranking ?s1)" by simp
  have f2: "(20::int) \<notin> set (ranking ?s2)" by simp
  have ok1: "fst (insert_ranker AddAfterEqual (<) (5::int) ?s1)" unfolding e1 by simp
  have ko2: "\<not> fst (insert_ranker AddAfterEqual (<) (20::int) ?s2)" unfolding e2 by simp
  note t1 = insert_result[of AddAfterEqual "(<)" 5 ?s1]
  note t2 = insert_result[of AddAfterEqual "(<)" 20 ?s2]
  have m1: "(5::int) \<in> set (ranking (snd (insert_ranker AddAfterEqual (<) (5::int) ?s1)))"
    using t1[THEN conjunct2, THEN conjunct2, THEN conjunct1, THEN mp, OF f1] ok1 by (rule iffD1)
  have m2: "(20::int) \<notin> set (ranking (snd (insert_ranker AddAfterEqual (<) (20::int) ?s2)))"
    using t2[THEN conjunct2, THEN conjunct2, THEN conjunct1, THEN mp, OF f2] ko2 by simp
  have m3: "insert_position AddAfterEqual (<) (ranking ?s2) 20 = length (ranking ?s2)"
    using t2[THEN conjunct2, THEN conjunct2, THEN conjunct2, THEN conjunct1] ko2 by blast
  show ?thesis using e0 e1 e2 e3 m1 m2 m3 by (intro conjI)
qed

end
